theory Spec2Isabelle
  imports Main
begin

section \<open>The buffered mailbox stream (IOBuffer)\<close>

text \<open>
  \<^verbatim>\<open>mbox-append.c\<close> reads the mailbox through an \<^verbatim>\<open>IOBuffer\<close>. Bytes are
  \<^typ>\<open>char\<close>; the mailbox file is a \<^typ>\<open>char list\<close> indexed by the stream's
  virtual offsets (offset 0 is the byte at \<^verbatim>\<open>start_offset\<close> of the file). The file
  (\<open>mbox\<close> below) is an argument of its own: the append holds the exclusive lock,
  nothing changes the file while it runs. File offsets (\<^verbatim>\<open>uoff_t\<close>) and buffer sizes (\<^verbatim>\<open>size_t\<close>) are
  \<^typ>\<open>nat\<close>: they stay below the length of the file, far from the 64-bit wrap-around.
\<close>

abbreviation LF :: char where "LF \<equiv> CHR 0x0A"
abbreviation CR :: char where "CR \<equiv> CHR 0x0D"

text \<open>
  The fields of \<^verbatim>\<open>IOBuffer\<close> that the appender touches. \<open>io_size\<close> is the field
  \<^verbatim>\<open>size\<close> (the soft ceiling of the stream), \<open>buffer\<close> holds the bytes read ahead of
  the cursor (\<^verbatim>\<open>pos - skip\<close> of them), \<open>chunk\<close> is how many bytes one read may fetch.
\<close>

record iobuffer =
  start_offset :: nat
  offset :: nat
  io_size :: nat
  buffer :: "char list"
  chunk :: nat

text \<open>
  The file \<^verbatim>\<open>iobuffer.c\<close>, which defines the operations of the stream, is not among the
  sources. The specification gives them as \<^verbatim>\<open>read_ahead(min_offset) -> (bytes,
  available_len) | end\<close>, \<^verbatim>\<open>advance(n)\<close>, \<^verbatim>\<open>seek(offset)\<close> and a mutable ceiling;
  \<^verbatim>\<open>mbox-append.c\<close> shows how they are called and what it expects of them (a negative
  answer of \<^verbatim>\<open>io_buffer_read_data\<close> ends its loops, and it tests \<^verbatim>\<open>size\<close> after one).
\<close>

text \<open>The end of the readable bytes: the ceiling, or the end of the file if that comes first.\<close>

definition io_limit :: "char list \<Rightarrow> iobuffer \<Rightarrow> nat" where
  "io_limit mbox b = min (io_size b) (length mbox)"

text \<open>
  Modelled from the spec: \<^verbatim>\<open>io_buffer_read\<close> of \<^verbatim>\<open>iobuffer.c\<close>, the refill behind
  \<^verbatim>\<open>read_ahead\<close>. It appends to the buffer at least one and at most \<open>chunk\<close> of the bytes
  that follow the buffered ones below the ceiling, and fails (\<open>None\<close>) when there is none.
\<close>

definition io_buffer_read :: "char list \<Rightarrow> iobuffer \<Rightarrow> iobuffer option" where
  "io_buffer_read mbox b =
     (let have = offset b + length (buffer b) in
      if have < io_limit mbox b
      then Some (b\<lparr>buffer := buffer b @
                   take (max 1 (chunk b)) (drop have (take (io_limit mbox b) mbox))\<rparr>)
      else None)"

text \<open>
  Modelled from the spec: \<^verbatim>\<open>io_buffer_get_data\<close> of \<^verbatim>\<open>iobuffer.c\<close>. It hands out the
  buffered bytes; its \<^verbatim>\<open>size\<close> result is their number.
\<close>

definition io_buffer_get_data :: "iobuffer \<Rightarrow> char list" where
  "io_buffer_get_data b = buffer b"

text \<open>
  Modelled from the spec: \<^verbatim>\<open>io_buffer_read_data\<close> of \<^verbatim>\<open>iobuffer.c\<close>, the
  \<^verbatim>\<open>read_ahead(min_offset)\<close> of the specification. It reads only when the buffer holds
  no more than \<open>threshold\<close> bytes; when that read fails it answers a negative value and no
  data (\<^verbatim>\<open>size = 0\<close>), otherwise it answers the whole buffer. The result is the return
  value, the data (whose length is \<^verbatim>\<open>size\<close>) and the stream.
\<close>

definition io_buffer_read_data :: "char list \<Rightarrow> iobuffer \<Rightarrow> nat \<Rightarrow> int \<times> char list \<times> iobuffer" where
  "io_buffer_read_data mbox b threshold =
     (if length (buffer b) \<le> threshold then
        (case io_buffer_read mbox b of
           None \<Rightarrow> (- 1, [], b)
         | Some b' \<Rightarrow> (1, io_buffer_get_data b', b'))
      else (1, io_buffer_get_data b, b))"

text \<open>
  Modelled from the spec: \<^verbatim>\<open>io_buffer_skip\<close> of \<^verbatim>\<open>iobuffer.c\<close>, the \<^verbatim>\<open>advance(n)\<close> of
  the specification. The cursor moves forward and the skipped bytes leave the buffer.
\<close>

definition io_buffer_skip :: "iobuffer \<Rightarrow> nat \<Rightarrow> iobuffer" where
  "io_buffer_skip b n = b\<lparr>offset := offset b + n, buffer := drop n (buffer b)\<rparr>"

text \<open>
  Modelled from the spec: \<^verbatim>\<open>io_buffer_seek\<close> of \<^verbatim>\<open>iobuffer.c\<close>, the \<^verbatim>\<open>seek(offset)\<close>
  of the specification. The cursor is set and the buffer is emptied; the appender
  ignores the value that the call returns.
\<close>

definition io_buffer_seek :: "iobuffer \<Rightarrow> nat \<Rightarrow> iobuffer" where
  "io_buffer_seek b n = b\<lparr>offset := n, buffer := []\<rparr>"

text \<open>The bytes of the stream that are not yet in the buffer.\<close>

definition unread :: "char list \<Rightarrow> iobuffer \<Rightarrow> nat" where
  "unread mbox b = io_limit mbox b - (offset b + length (buffer b))"

section \<open>The boundary scanner: \<^verbatim>\<open>mbox_read_message\<close>\<close>

text \<open>
  The test of lines 37 to 41: \<^verbatim>\<open>msg[i]\<close> is a space, at least five bytes precede it,
  and they are a newline and \<^verbatim>\<open>From\<close>.
\<close>

definition from_match :: "char list \<Rightarrow> nat \<Rightarrow> bool" where
  "from_match msg i \<longleftrightarrow>
     msg ! i = CHR '' '' \<and> 5 \<le> i \<and> msg ! (i - 5) = LF \<and> msg ! (i - 4) = CHR ''F'' \<and>
     msg ! (i - 3) = CHR ''r'' \<and> msg ! (i - 2) = CHR ''o'' \<and> msg ! (i - 1) = CHR ''m''"

text \<open>Lines 43 to 45: back over the newline and one carriage return before it.\<close>

definition back_up :: "char list \<Rightarrow> nat \<Rightarrow> nat" where
  "back_up msg i = (let j = i - 5 in if 0 < j \<and> msg ! (j - 1) = CR then j - 1 else j)"

text \<open>The \<^verbatim>\<open>for\<close> loop of lines 36 to 49; the result is the final value of \<^verbatim>\<open>i\<close>.\<close>

function mbox_scan :: "char list \<Rightarrow> nat \<Rightarrow> nat" where
  "mbox_scan msg i =
     (if i < length msg then
        (if from_match msg i then back_up msg i else mbox_scan msg (i + 1))
      else i)"
  by pat_completeness auto
termination
  by (relation "measure (\<lambda>(msg, i). length msg - i)") auto

declare mbox_scan.simps [simp del]

text \<open>
  One turn of the \<^verbatim>\<open>while\<close> loop of lines 35 to 63: the read failed (the loop ends
  with \<^verbatim>\<open>lastmsg\<close> still set), a separator was found at \<open>i\<close>, or the loop goes on with
  a new \<^verbatim>\<open>startpos\<close> after skipping the scanned bytes.
\<close>

datatype pass = Pass_eof iobuffer | Pass_found nat iobuffer | Pass_again nat iobuffer

definition mbox_read_pass :: "char list \<Rightarrow> iobuffer \<Rightarrow> nat \<Rightarrow> pass" where
  "mbox_read_pass mbox b startpos =
     (case io_buffer_read_data mbox b startpos of
        (ret, msg, b1) \<Rightarrow>
          if ret < 0 then Pass_eof b1
          else
            let i = mbox_scan msg startpos in
            if i < length msg then Pass_found i b1
            else if 0 < i then
              (let sp = (if i < 7 then i else 7) in Pass_again sp (io_buffer_skip b1 (i - sp)))
            else Pass_again startpos b1)"

lemma mbox_scan_no_match:
  "\<not> mbox_scan msg i < length msg \<Longrightarrow> mbox_scan msg i = max i (length msg)"
proof (induction msg i rule: mbox_scan.induct)
  case (1 msg i)
  show ?case
  proof (cases "i < length msg")
    case False
    then show ?thesis by (simp add: mbox_scan.simps [of msg i])
  next
    case True
    show ?thesis
    proof (cases "from_match msg i")
      case m: True
      have "back_up msg i \<le> i - 5" by (auto simp: back_up_def Let_def)
      with True m "1.prems" show ?thesis
        by (simp add: mbox_scan.simps [of msg i])
    next
      case m: False
      with True "1.prems" have "\<not> mbox_scan msg (i + 1) < length msg"
        by (simp add: mbox_scan.simps [of msg i])
      with "1.IH" True m have "mbox_scan msg (i + 1) = max (i + 1) (length msg)" by simp
      with True m show ?thesis by (simp add: mbox_scan.simps [of msg i] max_def)
    qed
  qed
qed

lemma read_data_cases:
  assumes "io_buffer_read_data mbox b t = (ret, msg, b1)"
  shows "(ret < 0 \<and> msg = [] \<and> b1 = b \<and> length (buffer b) \<le> t \<and>
          \<not> offset b + length (buffer b) < io_limit mbox b) \<or>
         (0 \<le> ret \<and> msg = buffer b \<and> b1 = b \<and> t < length (buffer b)) \<or>
         (0 \<le> ret \<and> msg = buffer b1 \<and> length (buffer b) \<le> t \<and>
          offset b1 = offset b \<and> io_size b1 = io_size b \<and> start_offset b1 = start_offset b \<and>
          chunk b1 = chunk b \<and>
          length (buffer b) < length (buffer b1) \<and>
          offset b + length (buffer b) < io_limit mbox b \<and>
          offset b + length (buffer b1) \<le> io_limit mbox b \<and>
          buffer b1 = buffer b @ take (length (buffer b1) - length (buffer b))
                        (drop (offset b + length (buffer b)) (take (io_limit mbox b) mbox)))"
proof (cases "length (buffer b) \<le> t")
  case False
  with assms show ?thesis
    by (auto simp: io_buffer_read_data_def io_buffer_get_data_def)
next
  case le: True
  show ?thesis
  proof (cases "offset b + length (buffer b) < io_limit mbox b")
    case False
    with assms le show ?thesis
      by (auto simp: io_buffer_read_data_def io_buffer_read_def Let_def)
  next
    case True
    define k where "k = min (max 1 (chunk b)) (io_limit mbox b - (offset b + length (buffer b)))"
    define ext where
      "ext = take (max 1 (chunk b)) (drop (offset b + length (buffer b)) (take (io_limit mbox b) mbox))"
    have lim: "io_limit mbox b \<le> length mbox" by (simp add: io_limit_def)
    have len: "length ext = k" using lim by (auto simp: ext_def k_def min_def max_def)
    have kpos: "0 < k" "offset b + length (buffer b) + k \<le> io_limit mbox b"
      using True by (auto simp: k_def)
    have ext2: "ext = take k (drop (offset b + length (buffer b)) (take (io_limit mbox b) mbox))"
      using lim by (auto simp: ext_def k_def min_def max_def)
    from assms le True have r: "ret = 1" "b1 = b\<lparr>buffer := buffer b @ ext\<rparr>" "msg = buffer b1"
      by (auto simp: io_buffer_read_data_def io_buffer_read_def Let_def io_buffer_get_data_def ext_def)
    from r len kpos ext2 le True show ?thesis by simp
  qed
qed

text \<open>Every turn that goes on has read new bytes or thrown scanned ones away.\<close>

lemma pass_again_measure:
  assumes "mbox_read_pass mbox b sp = Pass_again sp' b'"
  shows "2 * unread mbox b' + (if sp' < length (buffer b') then 1 else 0)
         < 2 * unread mbox b + (if sp < length (buffer b) then 1 else (0::nat))"
proof -
  obtain ret msg b1 where rd: "io_buffer_read_data mbox b sp = (ret, msg, b1)"
    by (cases "io_buffer_read_data mbox b sp") auto
  define i where "i = mbox_scan msg sp"
  from assms rd have nf: "\<not> i < length msg" and r0: "\<not> ret < 0"
    by (auto simp: mbox_read_pass_def i_def Let_def split: if_splits)
  then have i: "i = max sp (length msg)"
    using mbox_scan_no_match [of msg sp] by (simp add: i_def)
  from assms rd nf r0
  have res: "(0 < i \<and> sp' = min i 7 \<and> b' = io_buffer_skip b1 (i - min i 7)) \<or>
             (i = 0 \<and> sp' = sp \<and> b' = b1)"
    by (auto simp: mbox_read_pass_def i_def Let_def min_def split: if_splits)
  from read_data_cases [OF rd] r0 consider
    (keep) "msg = buffer b" "b1 = b" "sp < length (buffer b)"
    | (more) "msg = buffer b1" "length (buffer b) \<le> sp" "offset b1 = offset b"
        "io_size b1 = io_size b" "length (buffer b) < length (buffer b1)"
        "offset b + length (buffer b1) \<le> io_limit mbox b"
    by auto
  then show ?thesis
  proof cases
    case keep
    with i res show ?thesis
      by (auto simp: unread_def io_limit_def io_buffer_skip_def min_def max_def)
  next
    case more
    with i res show ?thesis
      by (auto simp: unread_def io_limit_def io_buffer_skip_def min_def max_def)
  qed
qed

text \<open>
  The \<^verbatim>\<open>while\<close> loop of lines 35 to 63. The result is \<^verbatim>\<open>lastmsg\<close>, the final
  \<^verbatim>\<open>startpos\<close> and the stream.
\<close>

function mbox_read_loop :: "char list \<Rightarrow> iobuffer \<Rightarrow> nat \<Rightarrow> bool \<times> nat \<times> iobuffer" where
  "mbox_read_loop mbox b startpos =
     (case mbox_read_pass mbox b startpos of
        Pass_eof b1 \<Rightarrow> (True, startpos, b1)
      | Pass_found i b1 \<Rightarrow> (False, i, b1)
      | Pass_again sp b1 \<Rightarrow> mbox_read_loop mbox b1 sp)"
  by pat_completeness auto
termination
  by (relation "measure (\<lambda>(mbox, b, sp).
        2 * unread mbox b + (if sp < length (buffer b) then 1 else 0))")
     (auto dest: pass_again_measure)

declare mbox_read_loop.simps [simp del]

text \<open>Lines 67 to 73: at the end of the file, remove the last line terminator.\<close>

definition trim_last :: "iobuffer \<Rightarrow> nat \<Rightarrow> nat" where
  "trim_last b startpos =
     (let msg = io_buffer_get_data b in
      if length msg = startpos then
        (let sp1 = (if msg ! (startpos - 1) = LF then startpos - 1 else startpos) in
         if 0 < sp1 \<and> msg ! (sp1 - 1) = CR then sp1 - 1 else sp1)
      else startpos)"

definition mbox_read_message :: "char list \<Rightarrow> iobuffer \<Rightarrow> iobuffer" where
  "mbox_read_message mbox b =
     (case mbox_read_loop mbox b 0 of
        (lastmsg, startpos, b1) \<Rightarrow>
          io_buffer_skip b1 (if lastmsg \<and> 0 < startpos then trim_last b1 startpos else startpos))"

section \<open>The index and the collaborators of the appender\<close>

text \<open>
  \<^verbatim>\<open>index->set_flags\<close> is a bit mask; it is modelled as the set of the flags that are
  on, so that \<^verbatim>\<open>set_flags |= MAIL_INDEX_FLAG_FSCK\<close> is an insertion. The header that
  numbers the flags is not among the sources; the appender names only this one.
\<close>

datatype index_flag = MAIL_INDEX_FLAG_FSCK | Other_flag nat

text \<open>The fields of \<^verbatim>\<open>MailIndexRecord\<close> that the appender writes.\<close>

record mail_index_record =
  uid :: nat
  msg_flags :: nat
  internal_date :: int

text \<open>A field handed to \<^verbatim>\<open>index->update_field_raw\<close>: its type and its value.\<close>

datatype field = FIELD_TYPE_LOCATION nat | FIELD_TYPE_MD5 "char list"

text \<open>
  The calls that the appender makes on the index and on the header context, with what
  they returned, and its one direct write of a record's \<^verbatim>\<open>uid\<close>. The record is named
  by its position in the index.
\<close>

datatype event =
    Ev_set_lock bool
  | Ev_append bool
  | Ev_update_begin nat
  | Ev_update_field_raw field
  | Ev_header_init_context
  | Ev_update_headers
  | Ev_md5_final
  | Ev_update_end bool
  | Ev_mark_flag_changes nat nat
  | Ev_fmsync bool
  | Ev_set_uid nat nat
  | Ev_header_free_context

text \<open>
  The part of \<^verbatim>\<open>MailIndex\<close> that the appender reads and writes. \<open>index_error\<close> is
  the message left by \<^verbatim>\<open>index_set_error\<close>. \<open>trace\<close> is not in the C structure: it
  lists the events of the append in their order, so that claims about the order of the
  calls can be stated.
\<close>

record mail_index =
  mbox_path :: string
  set_flags :: "index_flag set"
  index_error :: "string option"
  records :: "mail_index_record list"
  trace :: "event list"

text \<open>
  The collaborators, which are not among the sources, as parameters: the clock
  \<^verbatim>\<open>ioloop_time\<close>, the date parser of the From-line, the methods of the index (each may
  answer from the whole state of the index, the trace included), and the header parser
  \<^verbatim>\<open>mail_index_update_headers\<close> with \<^verbatim>\<open>mbox_header_func\<close>, which is handed the stream
  and gives back the stream as it leaves it, the message flags of the context and the MD5
  digest that \<^verbatim>\<open>md5_final\<close> then extracts. \<open>append\<close> answers the uid that the index
  hands out, or \<open>None\<close> when it fails.
\<close>

record env =
  ioloop_time :: int
  mbox_from_parse_date :: "char list \<Rightarrow> int"
  set_lock :: "mail_index \<Rightarrow> bool"
  append :: "mail_index \<Rightarrow> nat option"
  update_headers :: "char list \<Rightarrow> iobuffer \<Rightarrow> iobuffer \<times> nat \<times> char list"
  update_end :: "mail_index \<Rightarrow> bool"
  mail_index_fmsync :: "mail_index \<Rightarrow> bool"

definition log_events :: "event list \<Rightarrow> mail_index \<Rightarrow> mail_index" where
  "log_events es index = index\<lparr>trace := trace index @ es\<rparr>"

text \<open>The events that a run added to the trace.\<close>

definition new_events :: "mail_index \<Rightarrow> mail_index \<Rightarrow> event list" where
  "new_events index index' = drop (length (trace index)) (trace index')"

text \<open>
  The C functions return \<^verbatim>\<open>TRUE\<close> or \<^verbatim>\<open>FALSE\<close>; the model also says which
  \<^verbatim>\<open>return FALSE\<close> was taken.
\<close>

datatype failure =
    From_line_not_found
  | LF_not_found
  | Lock_failed
  | Record_append_failed
  | Update_end_failed
  | Fmsync_failed

datatype status = TRUE | FALSE failure

section \<open>One message: \<^verbatim>\<open>mbox_index_append_next\<close>\<close>

text \<open>
  Lines 11 to 25. The record is zeroed but for its date; \<^verbatim>\<open>index->append\<close> stores it
  at the end of the index and hands out the uid.
\<close>

definition mail_index_record_append ::
  "env \<Rightarrow> mail_index \<Rightarrow> int \<Rightarrow> (nat \<times> nat) option \<times> mail_index" where
  "mail_index_record_append e index date =
     (let trec = \<lparr>uid = 0, msg_flags = 0, internal_date = date\<rparr> in
      case append e index of
        None \<Rightarrow> (None, log_events [Ev_append False] index)
      | Some u \<Rightarrow>
          (Some (length (records index), u),
           log_events [Ev_append True] (index\<lparr>records := records index @ [trec]\<rparr>)))"

text \<open>The \<^verbatim>\<open>for\<close> loop of lines 94 to 97.\<close>

function find_lf :: "char list \<Rightarrow> nat \<Rightarrow> nat" where
  "find_lf data pos =
     (if pos < length data then (if data ! pos = LF then pos else find_lf data (pos + 1))
      else pos)"
  by pat_completeness auto
termination
  by (relation "measure (\<lambda>(data, pos). length data - pos)") auto

declare find_lf.simps [simp del]

lemma find_lf_no_lf:
  "\<not> find_lf data pos < length data \<Longrightarrow> find_lf data pos = max pos (length data)"
proof (induction data pos rule: find_lf.induct)
  case (1 data pos)
  show ?case
  proof (cases "pos < length data")
    case False
    then show ?thesis by (simp add: find_lf.simps [of data pos])
  next
    case True
    with "1.prems" have nl: "data ! pos \<noteq> LF"
      by (auto simp: find_lf.simps [of data pos] split: if_splits)
    with True "1.prems" have "\<not> find_lf data (pos + 1) < length data"
      by (simp add: find_lf.simps [of data pos])
    with "1.IH" True nl have "find_lf data (pos + 1) = max (pos + 1) (length data)" by simp
    with True nl show ?thesis by (simp add: find_lf.simps [of data pos] max_def)
  qed
qed

text \<open>
  The \<^verbatim>\<open>while\<close> loop of lines 93 to 101; the result is \<^verbatim>\<open>pos\<close>, \<^verbatim>\<open>data\<close> (whose
  length is \<^verbatim>\<open>size\<close>) and the stream.
\<close>

definition from_line_turn ::
  "char list \<Rightarrow> iobuffer \<Rightarrow> nat \<Rightarrow> (nat \<times> char list \<times> iobuffer) + (nat \<times> iobuffer)" where
  "from_line_turn mbox b pos =
     (case io_buffer_read_data mbox b pos of
        (ret, data, b1) \<Rightarrow>
          if ret < 0 then Inl (pos, data, b1)
          else
            let pos' = find_lf data pos in
            if pos' < length data then Inl (pos', data, b1) else Inr (pos', b1))"

lemma from_line_turn_measure:
  assumes "from_line_turn mbox b pos = Inr (pos', b')"
  shows "2 * unread mbox b' + (if pos' < length (buffer b') then 1 else 0)
         < 2 * unread mbox b + (if pos < length (buffer b) then 1 else (0::nat))"
proof -
  obtain ret data b1 where rd: "io_buffer_read_data mbox b pos = (ret, data, b1)"
    by (cases "io_buffer_read_data mbox b pos") auto
  from assms rd have nf: "\<not> find_lf data pos < length data" and r0: "\<not> ret < 0"
    and res: "pos' = find_lf data pos" "b' = b1"
    by (auto simp: from_line_turn_def Let_def split: if_splits)
  from find_lf_no_lf [OF nf] res have p: "pos' = max pos (length data)" by simp
  from read_data_cases [OF rd] r0 consider
    (keep) "data = buffer b" "b1 = b" "pos < length (buffer b)"
    | (more) "data = buffer b1" "length (buffer b) \<le> pos" "offset b1 = offset b"
        "io_size b1 = io_size b" "length (buffer b) < length (buffer b1)"
        "offset b + length (buffer b1) \<le> io_limit mbox b"
    by auto
  then show ?thesis
  proof cases
    case keep
    with p res show ?thesis by (auto simp: unread_def max_def)
  next
    case more
    with p res show ?thesis by (auto simp: unread_def io_limit_def max_def)
  qed
qed

function from_line_loop :: "char list \<Rightarrow> iobuffer \<Rightarrow> nat \<Rightarrow> nat \<times> char list \<times> iobuffer" where
  "from_line_loop mbox b pos =
     (case from_line_turn mbox b pos of
        Inl r \<Rightarrow> r
      | Inr (pos', b') \<Rightarrow> from_line_loop mbox b' pos')"
  by pat_completeness auto
termination
  by (relation "measure (\<lambda>(mbox, b, pos).
        2 * unread mbox b + (if pos < length (buffer b) then 1 else 0))")
     (auto dest: from_line_turn_measure)

declare from_line_loop.simps [simp del]

text \<open>
  Lines 79 to 174. \<open>strncmp(data, "From ", 5) != 0\<close> is \<open>take 5 data \<noteq> ''From ''\<close>:
  the literal has no NUL byte among its five.
\<close>

definition mbox_index_append_next ::
  "env \<Rightarrow> char list \<Rightarrow> mail_index \<Rightarrow> iobuffer \<Rightarrow> status \<times> mail_index \<times> iobuffer" where
  "mbox_index_append_next e mbox index inbuf =
     (case from_line_loop mbox inbuf 0 of
        (pos, data, b1) \<Rightarrow>
          if pos = length data \<or> length data \<le> 5 \<or> take 5 data \<noteq> ''From '' then
            (FALSE From_line_not_found,
             index\<lparr>index_error :=
                      Some (''Error indexing mbox file '' @ mbox_path index @
                            '': From-line not found where expected''),
                   set_flags := insert MAIL_INDEX_FLAG_FSCK (set_flags index)\<rparr>,
             b1)
          else
            let parsed = mbox_from_parse_date e data;
                date = (if parsed \<le> 0 then ioloop_time e else parsed);
                b2 = io_buffer_skip b1 (pos + 1);
                abs_start_offset = start_offset b2 + offset b2;
                b3 = mbox_read_message mbox b2;
                stop_offset = offset b3
            in
              case mail_index_record_append e index date of
                (None, index1) \<Rightarrow> (FALSE Record_append_failed, index1, b3)
              | (Some (rec, uid'), index1) \<Rightarrow>
                  let index2 = log_events [Ev_update_begin rec,
                                     Ev_update_field_raw (FIELD_TYPE_LOCATION abs_start_offset),
                                     Ev_header_init_context] index1;
                      old_size = io_size b3;
                      b4 = io_buffer_seek (b3\<lparr>io_size := stop_offset\<rparr>)
                             (abs_start_offset - start_offset b3)
                  in
                    case update_headers e mbox b4 of
                      (b5, flags, md5_digest) \<Rightarrow>
                        let b6 = io_buffer_seek (b5\<lparr>io_size := old_size\<rparr>) stop_offset;
                            index3 = log_events [Ev_update_headers, Ev_md5_final,
                                           Ev_update_field_raw (FIELD_TYPE_MD5 md5_digest)] index2
                        in
                          if \<not> update_end e index3 then
                            (FALSE Update_end_failed,
                             log_events [Ev_update_end False, Ev_header_free_context] index3, b6)
                          else
                            let index4 = log_events [Ev_update_end True, Ev_mark_flag_changes rec flags]
                                  (index3\<lparr>records := (records index3)
                                     [rec := (records index3 ! rec)\<lparr>msg_flags := flags\<rparr>]\<rparr>)
                            in
                              if \<not> mail_index_fmsync e index4 then
                                (FALSE Fmsync_failed, log_events [Ev_fmsync False] index4, b6)
                              else
                                (TRUE,
                                 log_events [Ev_fmsync True, Ev_set_uid rec uid', Ev_header_free_context]
                                   (index4\<lparr>records := (records index4)
                                      [rec := (records index4 ! rec)\<lparr>uid := uid'\<rparr>]\<rparr>),
                                 b6))"

section \<open>How the loops move the stream\<close>

text \<open>The bytes that can still be taken from the stream: those buffered and those unread.\<close>

definition remaining :: "char list \<Rightarrow> iobuffer \<Rightarrow> nat" where
  "remaining mbox b = length (buffer b) + unread mbox b"

text \<open>Two streams over the same file with the same ceiling, start and read size.\<close>

definition same_stream :: "iobuffer \<Rightarrow> iobuffer \<Rightarrow> bool" where
  "same_stream b b' \<longleftrightarrow>
     io_size b' = io_size b \<and> start_offset b' = start_offset b \<and> chunk b' = chunk b"

lemma same_stream_refl [simp]: "same_stream b b"
  by (simp add: same_stream_def)

lemma same_stream_trans: "same_stream a b \<Longrightarrow> same_stream b c \<Longrightarrow> same_stream a c"
  by (simp add: same_stream_def)

lemma read_data_remaining:
  assumes "io_buffer_read_data mbox b t = (ret, msg, b1)"
  shows "remaining mbox b1 = remaining mbox b \<and> same_stream b b1 \<and> offset b1 = offset b"
  using read_data_cases [OF assms]
  by (auto simp: remaining_def unread_def io_limit_def same_stream_def)

lemma skip_remaining:
  "remaining mbox (io_buffer_skip b n) \<le> remaining mbox b - min n (length (buffer b))"
  by (auto simp: remaining_def unread_def io_limit_def io_buffer_skip_def min_def)

lemma skip_same [simp]: "same_stream b (io_buffer_skip b n)"
  by (simp add: same_stream_def io_buffer_skip_def)

lemma skip_offset [simp]: "offset (io_buffer_skip b n) = offset b + n"
  by (simp add: io_buffer_skip_def)

lemma pass_steps:
  assumes "mbox_read_pass mbox b sp = r"
  shows "case r of
           Pass_eof b1 \<Rightarrow> b1 = b
         | Pass_found i b1 \<Rightarrow> remaining mbox b1 = remaining mbox b \<and> same_stream b b1 \<and> offset b1 = offset b
         | Pass_again sp' b1 \<Rightarrow> remaining mbox b1 \<le> remaining mbox b \<and> same_stream b b1 \<and> offset b \<le> offset b1"
proof -
  obtain ret msg b1 where rd: "io_buffer_read_data mbox b sp = (ret, msg, b1)"
    by (cases "io_buffer_read_data mbox b sp") auto
  note rem = read_data_remaining [OF rd]
  have sk: "\<And>n. remaining mbox (io_buffer_skip b1 n) \<le> remaining mbox b"
    using skip_remaining [of mbox b1] rem by (metis diff_le_self le_trans)
  have ss: "\<And>n. same_stream b (io_buffer_skip b1 n)"
    using rem by (simp add: same_stream_def io_buffer_skip_def)
  from read_data_cases [OF rd] have eof: "ret < 0 \<Longrightarrow> b1 = b" by auto
  from assms rd rem sk ss eof show ?thesis
    by (auto simp: mbox_read_pass_def Let_def split: if_splits)
qed

lemma read_loop_steps:
  "mbox_read_loop mbox b sp = (lastmsg, sp', b') \<Longrightarrow>
     remaining mbox b' \<le> remaining mbox b \<and> same_stream b b' \<and> offset b \<le> offset b'"
proof (induction mbox b sp rule: mbox_read_loop.induct)
  case (1 mbox b startpos)
  note st = pass_steps [where mbox = mbox and b = b and sp = startpos, OF refl]
  show ?case
  proof (cases "mbox_read_pass mbox b startpos")
    case (Pass_eof b1)
    with st "1.prems" show ?thesis by (simp add: mbox_read_loop.simps [of mbox b startpos])
  next
    case (Pass_found i b1)
    with st "1.prems" show ?thesis by (simp add: mbox_read_loop.simps [of mbox b startpos])
  next
    case (Pass_again sp1 b1)
    with "1.prems" have "mbox_read_loop mbox b1 sp1 = (lastmsg, sp', b')"
      by (simp add: mbox_read_loop.simps [of mbox b startpos])
    from "1.IH" [OF Pass_again this] st Pass_again show ?thesis
      by (auto intro: same_stream_trans)
  qed
qed

lemma read_message_steps:
  "remaining mbox (mbox_read_message mbox b) \<le> remaining mbox b \<and>
   same_stream b (mbox_read_message mbox b) \<and> offset b \<le> offset (mbox_read_message mbox b)"
proof -
  obtain lastmsg sp b1 where l: "mbox_read_loop mbox b 0 = (lastmsg, sp, b1)"
    by (cases "mbox_read_loop mbox b 0") auto
  note s = read_loop_steps [OF l]
  have sk: "\<And>n. remaining mbox (io_buffer_skip b1 n) \<le> remaining mbox b"
    using skip_remaining [of mbox b1] s by (metis diff_le_self le_trans)
  have ss: "\<And>n. same_stream b (io_buffer_skip b1 n)"
    using s by (simp add: same_stream_def io_buffer_skip_def)
  from l s sk ss show ?thesis by (simp add: mbox_read_message_def)
qed

lemma from_line_turn_steps:
  assumes "from_line_turn mbox b pos = r"
  shows "case r of
           Inl (pos', data, b1) \<Rightarrow>
             remaining mbox b1 = remaining mbox b \<and> same_stream b b1 \<and> offset b1 = offset b \<and>
             (data = [] \<or> data = buffer b1 \<and> pos' < length data)
         | Inr (pos', b1) \<Rightarrow>
             remaining mbox b1 = remaining mbox b \<and> same_stream b b1 \<and> offset b1 = offset b"
proof -
  obtain ret data b1 where rd: "io_buffer_read_data mbox b pos = (ret, data, b1)"
    by (cases "io_buffer_read_data mbox b pos") auto
  note rem = read_data_remaining [OF rd]
  from read_data_cases [OF rd] have d: "ret < 0 \<Longrightarrow> data = []" "\<not> ret < 0 \<Longrightarrow> data = buffer b1"
    by auto
  from assms rd rem d show ?thesis
    by (auto simp: from_line_turn_def Let_def split: if_splits)
qed

lemma from_line_loop_steps:
  "from_line_loop mbox b pos = (pos', data, b') \<Longrightarrow>
     remaining mbox b' = remaining mbox b \<and> same_stream b b' \<and> offset b' = offset b \<and>
     (data = [] \<or> data = buffer b' \<and> pos' < length data)"
proof (induction mbox b pos rule: from_line_loop.induct)
  case (1 mbox b pos)
  note st = from_line_turn_steps [where mbox = mbox and b = b and pos = pos, OF refl]
  show ?case
  proof (cases "from_line_turn mbox b pos")
    case (Inl r)
    with st "1.prems" show ?thesis by (auto simp: from_line_loop.simps [of mbox b pos])
  next
    case (Inr r)
    obtain p1 b1 where r: "r = (p1, b1)" by (cases r) auto
    with Inr "1.prems" have "from_line_loop mbox b1 p1 = (pos', data, b')"
      by (simp add: from_line_loop.simps [of mbox b pos])
    from "1.IH" [OF Inr r [symmetric] this] st Inr r show ?thesis
      by (auto intro: same_stream_trans)
  qed
qed

lemma seek_remaining:
  "io_size b3 = sz \<Longrightarrow> remaining mbox (io_buffer_seek (b5\<lparr>io_size := sz\<rparr>) (offset b3)) \<le> remaining mbox b3"
  by (auto simp: remaining_def unread_def io_limit_def io_buffer_seek_def)

lemma append_next_stream:
  assumes run: "mbox_index_append_next e mbox index b = (st, index', b')"
    and fl: "from_line_loop mbox b 0 = (pos, data, b1)"
  shows "st = FALSE From_line_not_found \<and> b' = b1 \<or>
         st = FALSE Record_append_failed \<and> b' = mbox_read_message mbox (io_buffer_skip b1 (pos + 1)) \<or>
         pos < length data \<and> data = buffer b1 \<and>
         (\<exists>b5. b' = io_buffer_seek (b5\<lparr>io_size := io_size b\<rparr>)
                      (offset (mbox_read_message mbox (io_buffer_skip b1 (pos + 1)))))"
proof -
  note s1 = from_line_loop_steps [OF fl]
  let ?b3 = "mbox_read_message mbox (io_buffer_skip b1 (pos + 1))"
  have "same_stream b ?b3"
    using s1 read_message_steps [of mbox "io_buffer_skip b1 (pos + 1)"]
    by (auto simp: same_stream_def io_buffer_skip_def)
  then have sz: "io_size ?b3 = io_size b" by (simp add: same_stream_def)
  from run fl s1 sz show ?thesis
    unfolding mbox_index_append_next_def Let_def
    by (auto split: prod.splits if_splits option.splits)
qed

lemma append_next_progress:
  assumes run: "mbox_index_append_next e mbox index b = (TRUE, index', b')"
  shows "remaining mbox b' < remaining mbox b \<and> io_size b' = io_size b"
proof -
  obtain pos data b1 where fl: "from_line_loop mbox b 0 = (pos, data, b1)"
    by (cases "from_line_loop mbox b 0") auto
  note s1 = from_line_loop_steps [OF fl]
  let ?b2 = "io_buffer_skip b1 (pos + 1)"
  let ?b3 = "mbox_read_message mbox ?b2"
  from append_next_stream [OF run fl] obtain b5 where
    p: "pos < length data" "data = buffer b1" and
    b': "b' = io_buffer_seek (b5\<lparr>io_size := io_size b\<rparr>) (offset ?b3)"
    by auto
  have "same_stream b ?b3"
    using s1 read_message_steps [of mbox ?b2]
    by (auto simp: same_stream_def io_buffer_skip_def)
  then have sz: "io_size ?b3 = io_size b" by (simp add: same_stream_def)
  have r2: "remaining mbox ?b2 \<le> remaining mbox b1 - (pos + 1)"
    using skip_remaining [of mbox b1 "pos + 1"] p by (simp add: min_def)
  have "pos + 1 \<le> remaining mbox b1" using p by (simp add: remaining_def)
  with r2 have "remaining mbox ?b2 < remaining mbox b1" by simp
  moreover have "remaining mbox ?b3 \<le> remaining mbox ?b2"
    using read_message_steps [of mbox ?b2] by simp
  moreover have "remaining mbox b' \<le> remaining mbox ?b3"
    unfolding b' by (rule seek_remaining [OF sz])
  ultimately show ?thesis using s1 b' by (simp add: io_buffer_seek_def)
qed

section \<open>The append driver: \<^verbatim>\<open>mbox_index_append\<close>\<close>

text \<open>
  Modelled from the spec: \<^verbatim>\<open>mbox_skip_crlf\<close> of \<^verbatim>\<open>mbox-index.c\<close>, which is not among
  the sources. The cursor is taken to sit on the line terminator left before a From-line;
  exactly that terminator, a newline or a carriage return and a newline, is skipped, and
  the call fails when another byte stands there. At the end of the stream there is nothing
  to skip and the call succeeds.
\<close>

definition mbox_skip_crlf :: "char list \<Rightarrow> iobuffer \<Rightarrow> bool \<times> iobuffer" where
  "mbox_skip_crlf mbox b =
     (case io_buffer_read_data mbox b 0 of
        (ret, data, b1) \<Rightarrow>
          if ret < 0 then (True, b1)
          else if data ! 0 = LF then (True, io_buffer_skip b1 1)
          else if data ! 0 \<noteq> CR then (False, b1)
          else
            (case io_buffer_read_data mbox b1 1 of
               (ret', data', b2) \<Rightarrow>
                 if ret' < 0 then (True, b2)
                 else if data' ! 1 \<noteq> LF then (False, b2)
                 else (True, io_buffer_skip b2 2)))"

lemma skip_crlf_steps:
  assumes "mbox_skip_crlf mbox b = (ok, b')"
  shows "remaining mbox b' \<le> remaining mbox b \<and> same_stream b b' \<and> offset b \<le> offset b'"
proof -
  obtain ret data b1 where rd: "io_buffer_read_data mbox b 0 = (ret, data, b1)"
    by (cases "io_buffer_read_data mbox b 0") auto
  obtain ret' data' b2 where rd2: "io_buffer_read_data mbox b1 1 = (ret', data', b2)"
    by (cases "io_buffer_read_data mbox b1 1") auto
  note r1 = read_data_remaining [OF rd] and r2 = read_data_remaining [OF rd2]
  have sk1: "\<And>n. remaining mbox (io_buffer_skip b1 n) \<le> remaining mbox b"
    using skip_remaining [of mbox b1] r1 by (metis diff_le_self le_trans)
  have sk2: "\<And>n. remaining mbox (io_buffer_skip b2 n) \<le> remaining mbox b"
    using skip_remaining [of mbox b2] r1 r2 by (metis diff_le_self le_trans)
  have ss1: "\<And>n. same_stream b (io_buffer_skip b1 n)"
    using r1 by (simp add: same_stream_def io_buffer_skip_def)
  have ss2: "\<And>n. same_stream b (io_buffer_skip b2 n)" "same_stream b b2"
    using r1 r2 by (simp_all add: same_stream_def io_buffer_skip_def)
  from assms rd rd2 have "b' = b1 \<or> b' = b2 \<or> (\<exists>n. b' = io_buffer_skip b1 n) \<or> (\<exists>n. b' = io_buffer_skip b2 n)"
    by (auto simp: mbox_skip_crlf_def split: if_splits)
  with r1 r2 sk1 sk2 ss1 ss2 show ?thesis by auto
qed

text \<open>The \<^verbatim>\<open>for (;;)\<close> loop of lines 186 to 206.\<close>

function mbox_index_append_loop ::
  "env \<Rightarrow> char list \<Rightarrow> mail_index \<Rightarrow> iobuffer \<Rightarrow> status \<times> mail_index \<times> iobuffer" where
  "mbox_index_append_loop e mbox index inbuf =
     (let (ok, b1) = (if start_offset inbuf + offset inbuf \<noteq> 0
                      then mbox_skip_crlf mbox inbuf else (True, inbuf))
      in
        if \<not> ok then
          (FALSE LF_not_found,
           index\<lparr>index_error :=
                    Some (''Error indexing mbox file '' @ mbox_path index @
                          '': LF not found where expected''),
                 set_flags := insert MAIL_INDEX_FLAG_FSCK (set_flags index)\<rparr>,
           b1)
        else if offset b1 = io_size b1 then (TRUE, index, b1)
        else
          (case mbox_index_append_next e mbox index b1 of
             (TRUE, index', b2) \<Rightarrow> mbox_index_append_loop e mbox index' b2
           | (FALSE f, index', b2) \<Rightarrow> (FALSE f, index', b2)))"
  by pat_completeness auto
termination
proof (relation "measure (\<lambda>(e, mbox, index, inbuf). remaining mbox inbuf)", goal_cases)
  case 1
  show ?case by simp
next
  case (2 e mbox index inbuf x ok b1 x2 st index' b2)
  then show ?case
    using append_next_progress [of e mbox index b1 index' b2] skip_crlf_steps [of mbox inbuf ok b1]
    by (auto split: if_splits)
qed

declare mbox_index_append_loop.simps [simp del]

text \<open>Lines 176 to 209.\<close>

definition mbox_index_append ::
  "env \<Rightarrow> char list \<Rightarrow> mail_index \<Rightarrow> iobuffer \<Rightarrow> status \<times> mail_index \<times> iobuffer" where
  "mbox_index_append e mbox index inbuf =
     (if offset inbuf = io_size inbuf then (TRUE, index, inbuf)
      else if \<not> set_lock e index then
        (FALSE Lock_failed, log_events [Ev_set_lock False] index, inbuf)
      else mbox_index_append_loop e mbox (log_events [Ev_set_lock True] index) inbuf)"

section \<open>A small mailbox to run the appender on\<close>

text \<open>
  One message, \<open>From a\<close> with no date and the body \<open>hi\<close>, read four bytes at a time.
  The collaborators of \<open>ex_env\<close> all succeed; its date parser answers \<open>- 1\<close> for every
  line, and its header parser leaves the stream at another place with another ceiling.
\<close>

definition ex_mbox :: "char list" where
  "ex_mbox = ''From a'' @ [LF] @ ''hi'' @ [LF]"

definition ex_inbuf :: iobuffer where
  "ex_inbuf = \<lparr>start_offset = 0, offset = 0, io_size = 10, buffer = [], chunk = 4\<rparr>"

definition ex_index :: mail_index where
  "ex_index = \<lparr>mbox_path = ''/var/mail/a'', set_flags = {}, index_error = None,
                records = [], trace = []\<rparr>"

definition ex_env :: env where
  "ex_env = \<lparr>ioloop_time = 1000,
              mbox_from_parse_date = (\<lambda>data. - 1),
              set_lock = (\<lambda>index. True),
              append = (\<lambda>index. Some (Suc (length (records index)))),
              update_headers = (\<lambda>mbox b. (io_buffer_seek (b\<lparr>io_size := 3\<rparr>) 8, 5, ''0123456789abcdef'')),
              update_end = (\<lambda>index. True),
              mail_index_fmsync = (\<lambda>index. True)\<rparr>"

text \<open>A body with \<open>From \<close> in the middle of its first line, before a real separator.\<close>

definition ex_subject :: "char list" where
  "ex_subject = ''Subject: From the team'' @ [LF] @ ''hi'' @ [CR, LF] @ ''From b'' @ [LF] @ ''x''"

text \<open>The mailbox of two messages that the specification gives as its example.\<close>

definition ex_two :: "char list" where
  "ex_two = ''From a 1'' @ [LF] @ ''Body1'' @ [CR, LF] @ ''From b 2'' @ [LF] @ ''Body2'' @ [LF]"

text \<open>A message whose body begins with a line \<open>From the start\<close> and ends with two newlines.\<close>

definition ex_lead :: "char list" where
  "ex_lead = ''From a'' @ [LF] @ ''From the start'' @ [LF] @ ''bye'' @ [LF, LF]"


text \<open>A mailbox whose last byte is a carriage return that no newline follows.\<close>

definition ex_cr :: "char list" where
  "ex_cr = ''From a'' @ [LF] @ ''hello'' @ [CR]"

section \<open>The vocabulary of the properties\<close>

text \<open>
  The events of a message up to the commit: the record is appended, the update is opened,
  the location is written, the headers are parsed and the digest is written.
\<close>

definition written :: "nat \<Rightarrow> nat \<Rightarrow> char list \<Rightarrow> event list" where
  "written rec a d =
     [Ev_append True, Ev_update_begin rec, Ev_update_field_raw (FIELD_TYPE_LOCATION a),
      Ev_header_init_context, Ev_update_headers, Ev_md5_final,
      Ev_update_field_raw (FIELD_TYPE_MD5 d)]"

text \<open>\<open>a\<close> occurs in \<open>es\<close> before the first \<open>b\<close>, which does occur.\<close>

definition precedes :: "event \<Rightarrow> event \<Rightarrow> event list \<Rightarrow> bool" where
  "precedes a b es \<longleftrightarrow> b \<in> set es \<and> a \<in> set (takeWhile (\<lambda>x. x \<noteq> b) es)"

text \<open>The test of line 103, and the message of lines 106 to 108.\<close>

definition from_line_bad :: "nat \<Rightarrow> char list \<Rightarrow> bool" where
  "from_line_bad pos data \<longleftrightarrow> pos = length data \<or> length data \<le> 5 \<or> take 5 data \<noteq> ''From ''"

definition from_line_error :: "mail_index \<Rightarrow> string" where
  "from_line_error index =
     ''Error indexing mbox file '' @ mbox_path index @ '': From-line not found where expected''"

text \<open>Lines 114 to 116: the date stored in the record.\<close>

definition the_date :: "env \<Rightarrow> char list \<Rightarrow> int" where
  "the_date e data =
     (if mbox_from_parse_date e data \<le> 0 then ioloop_time e else mbox_from_parse_date e data)"


text \<open>
  The separator in a list of bytes: at \<open>k\<close> stand a newline and the five bytes
  \<open>From \<close>. \<open>first_sep\<close> is the first such place.
\<close>

definition sep_at :: "char list \<Rightarrow> nat \<Rightarrow> bool" where
  "sep_at xs k \<longleftrightarrow> take 6 (drop k xs) = LF # ''From ''"

definition first_sep :: "char list \<Rightarrow> nat option" where
  "first_sep xs = find (sep_at xs) [0..<length xs]"

text \<open>The boundary before a separator: before its newline, or before the carriage return in front of it.\<close>

definition back_over_cr :: "char list \<Rightarrow> nat \<Rightarrow> nat" where
  "back_over_cr xs k = (if 0 < k \<and> xs ! (k - 1) = CR then k - 1 else k)"

text \<open>
  The end of a last message: the length of the bytes without one newline at their end,
  and then without one carriage return at their end.
\<close>

definition trimmed :: "char list \<Rightarrow> nat" where
  "trimmed xs =
     (let n = length xs;
          n1 = (if 0 < n \<and> xs ! (n - 1) = LF then n - 1 else n)
      in if 0 < n1 \<and> xs ! (n1 - 1) = CR then n1 - 1 else n1)"

text \<open>Where the body of the message that starts a list of bytes ends.\<close>

definition boundary :: "char list \<Rightarrow> nat" where
  "boundary xs = (case first_sep xs of Some k \<Rightarrow> back_over_cr xs k | None \<Rightarrow> trimmed xs)"

text \<open>
  The bytes of the stream from the cursor to the ceiling, and the streams whose cursor
  is below the ceiling and whose buffer holds the bytes of the file that follow the cursor.
\<close>

definition body_of :: "char list \<Rightarrow> iobuffer \<Rightarrow> char list" where
  "body_of mbox b = drop (offset b) (take (io_limit mbox b) mbox)"

definition consistent :: "char list \<Rightarrow> iobuffer \<Rightarrow> bool" where
  "consistent mbox b \<longleftrightarrow>
     offset b \<le> io_limit mbox b \<and> take (length (buffer b)) (body_of mbox b) = buffer b"

text \<open>
  The state of the loop of \<^verbatim>\<open>mbox_read_message\<close> started on \<open>b0\<close>: the stream has only
  moved forward, \<^verbatim>\<open>startpos\<close> is inside the buffer and leaves six bytes of lookback once
  bytes were skipped, and no separator ends before \<^verbatim>\<open>startpos\<close>.
\<close>

definition scanned :: "char list \<Rightarrow> iobuffer \<Rightarrow> iobuffer \<Rightarrow> nat \<Rightarrow> bool" where
  "scanned mbox b0 b sp \<longleftrightarrow>
     consistent mbox b \<and> io_size b = io_size b0 \<and> offset b0 \<le> offset b \<and>
     sp \<le> length (buffer b) \<and> (offset b = offset b0 \<or> 6 \<le> sp) \<and>
     (\<forall>k. k + 5 < offset b - offset b0 + sp \<longrightarrow> \<not> sep_at (body_of mbox b0) k)"

text \<open>
  The pieces of a call of \<^verbatim>\<open>mbox_index_append_next\<close> on the index \<open>index\<close> and the
  stream \<open>inbuf\<close>, named so that the properties can speak of what each collaborator is
  asked. The From-line passes the test of line 103.
\<close>

definition valid_from_line :: "char list \<Rightarrow> iobuffer \<Rightarrow> bool" where
  "valid_from_line mbox inbuf =
     (case from_line_loop mbox inbuf 0 of (pos, data, b1) \<Rightarrow> \<not> from_line_bad pos data)"

text \<open>The stream after line 118, at the start of the headers, and \<^verbatim>\<open>abs_start_offset\<close>.\<close>

definition header_start :: "char list \<Rightarrow> iobuffer \<Rightarrow> iobuffer" where
  "header_start mbox inbuf =
     (case from_line_loop mbox inbuf 0 of (pos, data, b1) \<Rightarrow> io_buffer_skip b1 (pos + 1))"

definition location :: "char list \<Rightarrow> iobuffer \<Rightarrow> nat" where
  "location mbox inbuf = start_offset (header_start mbox inbuf) + offset (header_start mbox inbuf)"

text \<open>The stream handed to the header parser (lines 142 to 144), and what the parser answers.\<close>

definition narrowed :: "char list \<Rightarrow> iobuffer \<Rightarrow> iobuffer" where
  "narrowed mbox inbuf =
     (let b3 = mbox_read_message mbox (header_start mbox inbuf)
      in io_buffer_seek (b3\<lparr>io_size := offset b3\<rparr>) (location mbox inbuf - start_offset b3))"

definition header_flags :: "env \<Rightarrow> char list \<Rightarrow> iobuffer \<Rightarrow> nat" where
  "header_flags e mbox inbuf = fst (snd (update_headers e mbox (narrowed mbox inbuf)))"

definition header_digest :: "env \<Rightarrow> char list \<Rightarrow> iobuffer \<Rightarrow> char list" where
  "header_digest e mbox inbuf = snd (snd (update_headers e mbox (narrowed mbox inbuf)))"

text \<open>The date of lines 114 to 116 for the data of the From-line.\<close>

definition stored_date :: "env \<Rightarrow> char list \<Rightarrow> iobuffer \<Rightarrow> int" where
  "stored_date e mbox inbuf = the_date e (fst (snd (from_line_loop mbox inbuf 0)))"

text \<open>
  The index on which \<^verbatim>\<open>index->update_end\<close> is called (line 156): the record is appended
  and the events up to the write of the digest are in the trace.
\<close>

definition commit_state :: "env \<Rightarrow> char list \<Rightarrow> mail_index \<Rightarrow> iobuffer \<Rightarrow> mail_index" where
  "commit_state e mbox index inbuf =
     log_events [Ev_update_headers, Ev_md5_final,
                 Ev_update_field_raw (FIELD_TYPE_MD5 (header_digest e mbox inbuf))]
       (log_events [Ev_update_begin (length (records index)),
                    Ev_update_field_raw (FIELD_TYPE_LOCATION (location mbox inbuf)),
                    Ev_header_init_context]
          (log_events [Ev_append True]
             (index\<lparr>records := records index @
                [\<lparr>uid = 0, msg_flags = 0, internal_date = stored_date e mbox inbuf\<rparr>]\<rparr>)))"

text \<open>The index on which \<^verbatim>\<open>mail_index_fmsync\<close> is called (line 166), after lines 160 and 161.\<close>

definition sync_state :: "env \<Rightarrow> char list \<Rightarrow> mail_index \<Rightarrow> iobuffer \<Rightarrow> mail_index" where
  "sync_state e mbox index inbuf =
     (let index3 = commit_state e mbox index inbuf; rec = length (records index)
      in log_events [Ev_update_end True, Ev_mark_flag_changes rec (header_flags e mbox inbuf)]
           (index3\<lparr>records := (records index3)
              [rec := (records index3 ! rec)\<lparr>msg_flags := header_flags e mbox inbuf\<rparr>]\<rparr>))"

text \<open>The index after line 168, when the uid \<open>u\<close> is written, and line 171.\<close>

definition done_state :: "env \<Rightarrow> char list \<Rightarrow> mail_index \<Rightarrow> iobuffer \<Rightarrow> nat \<Rightarrow> mail_index" where
  "done_state e mbox index inbuf u =
     (let index4 = sync_state e mbox index inbuf; rec = length (records index)
      in log_events [Ev_fmsync True, Ev_set_uid rec u, Ev_header_free_context]
           (index4\<lparr>records := (records index4) [rec := (records index4 ! rec)\<lparr>uid := u\<rparr>]\<rparr>))"

text \<open>
  The end of a last message in the words of the specification (``trim up to one trailing
  LF and, if present, one more preceding CR'') and of the comment of line 66, which
  announces the removal of the last newline with the carriage return that may stand
  before it: a newline at the end is left out, together with the carriage return before
  that newline; bytes that do not end with a newline are kept whole.
\<close>

definition claimed_end :: "char list \<Rightarrow> nat" where
  "claimed_end xs =
     (let n = length xs in
      if 0 < n \<and> xs ! (n - 1) = LF
      then (if 1 < n \<and> xs ! (n - 2) = CR then n - 2 else n - 1)
      else n)"

text \<open>
  Lines 187 to 198, the head of a turn of the driver's loop: the line end between two
  messages is skipped, except at the very start of the mailbox.
\<close>

definition skipped :: "char list \<Rightarrow> iobuffer \<Rightarrow> bool \<times> iobuffer" where
  "skipped mbox b = (if start_offset b + offset b \<noteq> 0 then mbox_skip_crlf mbox b else (True, b))"

text \<open>
  One full turn of the loop of lines 186 to 206, from the head of a turn to the head of
  the next: the skip succeeded, the stream was not at its end, and the message
  transaction returned TRUE with the index and the stream of the next head.
\<close>

definition turn :: "env \<Rightarrow> char list \<Rightarrow> mail_index \<times> iobuffer \<Rightarrow> mail_index \<times> iobuffer \<Rightarrow> bool" where
  "turn e mbox s s' \<longleftrightarrow>
     fst (skipped mbox (snd s)) \<and>
     offset (snd (skipped mbox (snd s))) \<noteq> io_size (snd (skipped mbox (snd s))) \<and>
     mbox_index_append_next e mbox (fst s) (snd (skipped mbox (snd s))) = (TRUE, fst s', snd s')"

text \<open>
  The heads of turns that a run of \<^verbatim>\<open>mbox_index_append\<close> comes to: the stream was not
  at its end, the lock was taken, and a number of full turns lead from the first head
  to this one.
\<close>

definition reached :: "env \<Rightarrow> char list \<Rightarrow> mail_index \<Rightarrow> iobuffer \<Rightarrow> mail_index \<times> iobuffer \<Rightarrow> bool" where
  "reached e mbox index inbuf s \<longleftrightarrow>
     offset inbuf \<noteq> io_size inbuf \<and> set_lock e index \<and>
     (turn e mbox)\<^sup>*\<^sup>* (log_events [Ev_set_lock True] index, inbuf) s"








section \<open>The outcomes of a message transaction\<close>

text \<open>The five ways in which \<^verbatim>\<open>mbox_index_append_next\<close> returns, and the index it leaves.\<close>

lemma append_next_cases [consumes 2, case_names bad_from no_record no_commit no_sync success]:
  assumes run: "mbox_index_append_next e mbox index inbuf = (st, index', inbuf')"
    and fl: "from_line_loop mbox inbuf 0 = (pos, data, b1)"
  obtains
    (bad_from) "from_line_bad pos data" "st = FALSE From_line_not_found"
      "index' = index\<lparr>index_error := Some (from_line_error index),
                        set_flags := insert MAIL_INDEX_FLAG_FSCK (set_flags index)\<rparr>"
  | (no_record) "\<not> from_line_bad pos data" "st = FALSE Record_append_failed"
      "index' = index\<lparr>trace := trace index @ [Ev_append False]\<rparr>"
  | (no_commit) a d where "\<not> from_line_bad pos data" "st = FALSE Update_end_failed"
      "index' = index\<lparr>
         records := records index @ [\<lparr>uid = 0, msg_flags = 0, internal_date = the_date e data\<rparr>],
         trace := trace index @ written (length (records index)) a d @
                  [Ev_update_end False, Ev_header_free_context]\<rparr>"
  | (no_sync) a d flg where "\<not> from_line_bad pos data" "st = FALSE Fmsync_failed"
      "index' = index\<lparr>
         records := records index @ [\<lparr>uid = 0, msg_flags = flg, internal_date = the_date e data\<rparr>],
         trace := trace index @ written (length (records index)) a d @
                  [Ev_update_end True, Ev_mark_flag_changes (length (records index)) flg,
                   Ev_fmsync False]\<rparr>"
  | (success) a d flg u where "\<not> from_line_bad pos data" "st = TRUE"
      "index' = index\<lparr>
         records := records index @ [\<lparr>uid = u, msg_flags = flg, internal_date = the_date e data\<rparr>],
         trace := trace index @ written (length (records index)) a d @
                  [Ev_update_end True, Ev_mark_flag_changes (length (records index)) flg,
                   Ev_fmsync True, Ev_set_uid (length (records index)) u,
                   Ev_header_free_context]\<rparr>"
proof (cases "from_line_bad pos data")
  case True
  with run fl have "st = FALSE From_line_not_found"
      "index' = index\<lparr>index_error := Some (from_line_error index),
                        set_flags := insert MAIL_INDEX_FLAG_FSCK (set_flags index)\<rparr>"
    by (auto simp: mbox_index_append_next_def from_line_bad_def from_line_error_def)
  with True show ?thesis by (rule bad_from)
next
  case good: False
  show ?thesis
  proof (cases "append e index")
    case None
    with run fl good have "st = FALSE Record_append_failed"
        "index' = index\<lparr>trace := trace index @ [Ev_append False]\<rparr>"
      by (auto simp: mbox_index_append_next_def from_line_bad_def mail_index_record_append_def
            Let_def log_events_def)
    with good show ?thesis by (rule no_record)
  next
    case (Some u)
    from run fl good Some show ?thesis
      unfolding mbox_index_append_next_def mail_index_record_append_def Let_def
      apply (simp add: from_line_bad_def [symmetric] the_date_def [symmetric]
          log_events_def written_def split: prod.splits if_splits)
      apply (auto intro: no_commit [unfolded written_def] no_sync [unfolded written_def]
          success [unfolded written_def])
      done
  qed
qed

text \<open>
  The same five returns, told by the answers of the collaborators: which return is taken and
  the index that it leaves depend on the From-line, on \<^verbatim>\<open>index->append\<close> and on what
  \<^verbatim>\<open>update_end\<close> and \<^verbatim>\<open>mail_index_fmsync\<close> answer on the index that they are called on.
\<close>

lemma append_next_answers:
  "fst (mbox_index_append_next e mbox index inbuf) =
     (if \<not> valid_from_line mbox inbuf then FALSE From_line_not_found
      else if append e index = None then FALSE Record_append_failed
      else if \<not> update_end e (commit_state e mbox index inbuf) then FALSE Update_end_failed
      else if \<not> mail_index_fmsync e (sync_state e mbox index inbuf) then FALSE Fmsync_failed
      else TRUE) \<and>
   fst (snd (mbox_index_append_next e mbox index inbuf)) =
     (if \<not> valid_from_line mbox inbuf then
        index\<lparr>index_error := Some (from_line_error index),
              set_flags := insert MAIL_INDEX_FLAG_FSCK (set_flags index)\<rparr>
      else case append e index of
        None \<Rightarrow> log_events [Ev_append False] index
      | Some u \<Rightarrow>
          if \<not> update_end e (commit_state e mbox index inbuf) then
            log_events [Ev_update_end False, Ev_header_free_context] (commit_state e mbox index inbuf)
          else if \<not> mail_index_fmsync e (sync_state e mbox index inbuf) then
            log_events [Ev_fmsync False] (sync_state e mbox index inbuf)
          else done_state e mbox index inbuf u)"
proof -
  obtain pos data b1 where fl: "from_line_loop mbox inbuf 0 = (pos, data, b1)"
    by (cases "from_line_loop mbox inbuf 0") auto
  obtain b5 flags md5 where
    uh: "update_headers e mbox (narrowed mbox inbuf) = (b5, flags, md5)"
    by (cases "update_headers e mbox (narrowed mbox inbuf)") auto
  have hs: "header_start mbox inbuf = io_buffer_skip b1 (pos + 1)"
    by (simp add: header_start_def fl)
  show ?thesis
  proof (cases "from_line_bad pos data")
    case True
    with fl show ?thesis
      by (simp add: mbox_index_append_next_def valid_from_line_def from_line_bad_def
          from_line_error_def)
  next
    case good: False
    show ?thesis
    proof (cases "append e index")
      case None
      with fl good show ?thesis
        by (simp add: mbox_index_append_next_def valid_from_line_def from_line_bad_def
            mail_index_record_append_def Let_def)
    next
      case (Some u)
      from uh have uh': "update_headers e mbox
          (io_buffer_seek (mbox_read_message mbox (io_buffer_skip b1 (pos + 1))
              \<lparr>io_size := offset (mbox_read_message mbox (io_buffer_skip b1 (pos + 1)))\<rparr>)
            (start_offset (io_buffer_skip b1 (pos + 1)) + offset (io_buffer_skip b1 (pos + 1)) -
             start_offset (mbox_read_message mbox (io_buffer_skip b1 (pos + 1))))) = (b5, flags, md5)"
        by (simp add: narrowed_def location_def hs Let_def)
      have fld: "header_flags e mbox inbuf = flags" "header_digest e mbox inbuf = md5"
        by (simp_all add: header_flags_def header_digest_def uh)
      have dt: "stored_date e mbox inbuf =
          (if mbox_from_parse_date e data \<le> 0 then ioloop_time e else mbox_from_parse_date e data)"
        by (simp add: stored_date_def fl the_date_def)
      have loc: "location mbox inbuf =
          start_offset (io_buffer_skip b1 (pos + 1)) + offset (io_buffer_skip b1 (pos + 1))"
        by (simp add: location_def hs)
      from fl good Some uh' show ?thesis
        unfolding mbox_index_append_next_def valid_from_line_def mail_index_record_append_def
          commit_state_def sync_state_def done_state_def fld dt loc Let_def
        by (simp add: from_line_bad_def)
    qed
  qed
qed

lemma commit_state_eq:
  "commit_state e mbox index inbuf =
     index\<lparr>records := records index @
              [\<lparr>uid = 0, msg_flags = 0, internal_date = stored_date e mbox inbuf\<rparr>],
           trace := trace index @
              written (length (records index)) (location mbox inbuf) (header_digest e mbox inbuf)\<rparr>"
  by (simp add: commit_state_def log_events_def written_def)

lemma sync_state_eq:
  "sync_state e mbox index inbuf =
     index\<lparr>records := records index @
              [\<lparr>uid = 0, msg_flags = header_flags e mbox inbuf,
                internal_date = stored_date e mbox inbuf\<rparr>],
           trace := trace index @
              written (length (records index)) (location mbox inbuf) (header_digest e mbox inbuf) @
              [Ev_update_end True,
               Ev_mark_flag_changes (length (records index)) (header_flags e mbox inbuf)]\<rparr>"
  by (simp add: sync_state_def commit_state_eq log_events_def Let_def)

lemma done_state_eq:
  "done_state e mbox index inbuf u =
     index\<lparr>records := records index @
              [\<lparr>uid = u, msg_flags = header_flags e mbox inbuf,
                internal_date = stored_date e mbox inbuf\<rparr>],
           trace := trace index @
              written (length (records index)) (location mbox inbuf) (header_digest e mbox inbuf) @
              [Ev_update_end True,
               Ev_mark_flag_changes (length (records index)) (header_flags e mbox inbuf),
               Ev_fmsync True, Ev_set_uid (length (records index)) u, Ev_header_free_context]\<rparr>"
  by (simp add: done_state_def sync_state_eq log_events_def Let_def)

lemma append_next_by_answers:
  assumes run: "mbox_index_append_next e mbox index inbuf = (st, index', inbuf')"
  shows "(\<not> valid_from_line mbox inbuf \<longrightarrow>
            st = FALSE From_line_not_found \<and>
            index' = index\<lparr>index_error := Some (from_line_error index),
                          set_flags := insert MAIL_INDEX_FLAG_FSCK (set_flags index)\<rparr>) \<and>
         (valid_from_line mbox inbuf \<and> append e index = None \<longrightarrow>
            st = FALSE Record_append_failed \<and>
            index' = index\<lparr>trace := trace index @ [Ev_append False]\<rparr>) \<and>
         (valid_from_line mbox inbuf \<and> append e index \<noteq> None \<and>
          \<not> update_end e (commit_state e mbox index inbuf) \<longrightarrow>
            st = FALSE Update_end_failed \<and>
            index' = (commit_state e mbox index inbuf)
              \<lparr>trace := trace (commit_state e mbox index inbuf) @
                 [Ev_update_end False, Ev_header_free_context]\<rparr>) \<and>
         (valid_from_line mbox inbuf \<and> append e index \<noteq> None \<and>
          update_end e (commit_state e mbox index inbuf) \<and>
          \<not> mail_index_fmsync e (sync_state e mbox index inbuf) \<longrightarrow>
            st = FALSE Fmsync_failed \<and>
            index' = (sync_state e mbox index inbuf)
              \<lparr>trace := trace (sync_state e mbox index inbuf) @ [Ev_fmsync False]\<rparr>) \<and>
         (\<forall>u. valid_from_line mbox inbuf \<and> append e index = Some u \<and>
          update_end e (commit_state e mbox index inbuf) \<and>
          mail_index_fmsync e (sync_state e mbox index inbuf) \<longrightarrow>
            st = TRUE \<and> index' = done_state e mbox index inbuf u)"
  using append_next_answers [of e mbox index inbuf] run
  by (auto simp: log_events_def)

lemma answer_cases [consumes 1, case_names bad_from no_record no_commit no_sync success]:
  assumes run: "mbox_index_append_next e mbox index inbuf = (st, index', inbuf')"
  obtains
    (bad_from) "\<not> valid_from_line mbox inbuf" "st = FALSE From_line_not_found"
      "index' = index\<lparr>index_error := Some (from_line_error index),
                        set_flags := insert MAIL_INDEX_FLAG_FSCK (set_flags index)\<rparr>"
  | (no_record) "valid_from_line mbox inbuf" "append e index = None"
      "st = FALSE Record_append_failed"
      "index' = index\<lparr>trace := trace index @ [Ev_append False]\<rparr>"
  | (no_commit) u where "valid_from_line mbox inbuf" "append e index = Some u"
      "\<not> update_end e (commit_state e mbox index inbuf)"
      "st = FALSE Update_end_failed"
      "index' = index\<lparr>records := records index @
              [\<lparr>uid = 0, msg_flags = 0, internal_date = stored_date e mbox inbuf\<rparr>],
           trace := trace index @
              written (length (records index)) (location mbox inbuf) (header_digest e mbox inbuf) @
              [Ev_update_end False, Ev_header_free_context]\<rparr>"
  | (no_sync) u where "valid_from_line mbox inbuf" "append e index = Some u"
      "update_end e (commit_state e mbox index inbuf)"
      "\<not> mail_index_fmsync e (sync_state e mbox index inbuf)"
      "st = FALSE Fmsync_failed"
      "index' = index\<lparr>records := records index @
              [\<lparr>uid = 0, msg_flags = header_flags e mbox inbuf,
                internal_date = stored_date e mbox inbuf\<rparr>],
           trace := trace index @
              written (length (records index)) (location mbox inbuf) (header_digest e mbox inbuf) @
              [Ev_update_end True,
               Ev_mark_flag_changes (length (records index)) (header_flags e mbox inbuf),
               Ev_fmsync False]\<rparr>"
  | (success) u where "valid_from_line mbox inbuf" "append e index = Some u"
      "update_end e (commit_state e mbox index inbuf)"
      "mail_index_fmsync e (sync_state e mbox index inbuf)"
      "st = TRUE"
      "index' = index\<lparr>records := records index @
              [\<lparr>uid = u, msg_flags = header_flags e mbox inbuf,
                internal_date = stored_date e mbox inbuf\<rparr>],
           trace := trace index @
              written (length (records index)) (location mbox inbuf) (header_digest e mbox inbuf) @
              [Ev_update_end True,
               Ev_mark_flag_changes (length (records index)) (header_flags e mbox inbuf),
               Ev_fmsync True, Ev_set_uid (length (records index)) u, Ev_header_free_context]\<rparr>"
proof -
  note a = append_next_by_answers [OF run]
  show ?thesis
  proof (cases "valid_from_line mbox inbuf")
    case False
    with a show ?thesis by (intro bad_from) simp_all
  next
    case v: True
    show ?thesis
    proof (cases "append e index")
      case None
      with a v show ?thesis by (intro no_record) simp_all
    next
      case (Some u)
      show ?thesis
      proof (cases "update_end e (commit_state e mbox index inbuf)")
        case False
        with a v Some show ?thesis
          by (intro no_commit [of u]) (simp_all add: commit_state_eq)
      next
        case c: True
        show ?thesis
        proof (cases "mail_index_fmsync e (sync_state e mbox index inbuf)")
          case False
          with a v Some c show ?thesis
            by (intro no_sync [of u]) (simp_all add: sync_state_eq)
        next
          case True
          with a v Some c show ?thesis
            by (intro success [of u]) (simp_all add: done_state_eq)
        qed
      qed
    qed
  qed
qed

section \<open>The flag and the error that a run leaves\<close>

lemma append_next_flags:
  assumes run: "mbox_index_append_next e mbox index inbuf = (st, index', inbuf')"
  shows "mbox_path index' = mbox_path index \<and>
         st \<noteq> FALSE LF_not_found \<and> st \<noteq> FALSE Lock_failed \<and>
         (st = FALSE From_line_not_found \<longrightarrow>
            set_flags index' = insert MAIL_INDEX_FLAG_FSCK (set_flags index) \<and>
            index_error index' = Some (from_line_error index)) \<and>
         (st \<noteq> FALSE From_line_not_found \<longrightarrow>
            set_flags index' = set_flags index \<and> index_error index' = index_error index)"
proof -
  obtain pos data b1 where fl: "from_line_loop mbox inbuf 0 = (pos, data, b1)"
    by (cases "from_line_loop mbox inbuf 0") auto
  from run fl show ?thesis
    by (cases rule: append_next_cases) auto
qed



subsection \<open>The turns of the driver's loop\<close>




lemma turn_keeps:
  assumes "turn e mbox s s'"
  shows "mbox_path (fst s') = mbox_path (fst s) \<and> set_flags (fst s') = set_flags (fst s) \<and>
         index_error (fst s') = index_error (fst s)"
proof -
  from assms have "mbox_index_append_next e mbox (fst s) (snd (skipped mbox (snd s))) =
      (TRUE, fst s', snd s')" by (simp add: turn_def)
  from append_next_flags [OF this] show ?thesis by simp
qed

lemma turns_keep:
  "(turn e mbox)\<^sup>*\<^sup>* s s' \<Longrightarrow>
     mbox_path (fst s') = mbox_path (fst s) \<and> set_flags (fst s') = set_flags (fst s) \<and>
     index_error (fst s') = index_error (fst s)"
  by (induction rule: rtranclp_induct) (auto dest: turn_keeps)








section \<open>What the boundary scanner computes\<close>

lemma sep_at_nth:
  "sep_at xs k \<longleftrightarrow>
     k + 5 < length xs \<and> xs ! k = LF \<and> xs ! (k + 1) = CHR ''F'' \<and> xs ! (k + 2) = CHR ''r'' \<and>
     xs ! (k + 3) = CHR ''o'' \<and> xs ! (k + 4) = CHR ''m'' \<and> xs ! (k + 5) = CHR '' ''"
proof (cases "k + 5 < length xs")
  case False
  have "take 6 (drop k xs) \<noteq> LF # ''From ''"
  proof
    assume "take 6 (drop k xs) = LF # ''From ''"
    then have "length (take 6 (drop k xs)) = 6" by simp
    with False show False by simp
  qed
  with False show ?thesis by (simp add: sep_at_def)
next
  case True
  then have len: "length (take 6 (drop k xs)) = 6" by simp
  have nth: "\<And>i. i < 6 \<Longrightarrow> take 6 (drop k xs) ! i = xs ! (k + i)"
    using True by simp
  have "take 6 (drop k xs) = LF # ''From '' \<longleftrightarrow>
        (\<forall>i<6. take 6 (drop k xs) ! i = (LF # ''From '') ! i)"
    using len by (simp add: list_eq_iff_nth_eq)
  also have "\<dots> \<longleftrightarrow> (\<forall>i<6. xs ! (k + i) = (LF # ''From '') ! i)"
    using nth by simp
  also have "\<dots> \<longleftrightarrow> xs ! k = LF \<and> xs ! (k + 1) = CHR ''F'' \<and> xs ! (k + 2) = CHR ''r'' \<and>
     xs ! (k + 3) = CHR ''o'' \<and> xs ! (k + 4) = CHR ''m'' \<and> xs ! (k + 5) = CHR '' ''"
    by (simp add: eval_nat_numeral All_less_Suc conj_ac)
  finally show ?thesis using True by (simp add: sep_at_def)
qed

lemma first_sep_None: "(\<And>k. \<not> sep_at xs k) \<Longrightarrow> first_sep xs = None"
  by (simp add: first_sep_def find_None_iff)

lemma first_sep_Some:
  assumes "sep_at xs k" and "\<And>j. j < k \<Longrightarrow> \<not> sep_at xs j"
  shows "first_sep xs = Some k"
proof -
  from assms(1) have "k < length xs" by (simp add: sep_at_nth)
  with assms show ?thesis
    unfolding first_sep_def find_Some_iff
    by (intro exI [of _ k]) simp
qed

lemma first_sep_SomeD: "first_sep xs = Some k \<Longrightarrow> sep_at xs k \<and> (\<forall>j<k. \<not> sep_at xs j)"
  unfolding first_sep_def find_Some_iff by auto

lemma first_sep_NoneD: "first_sep xs = None \<Longrightarrow> \<not> sep_at xs k"
proof
  assume n: "first_sep xs = None" and s: "sep_at xs k"
  from s have "k < length xs" by (simp add: sep_at_nth)
  with n s show False by (auto simp: first_sep_def find_None_iff)
qed

lemma scan_result:
  "sp \<le> length msg \<Longrightarrow>
     (mbox_scan msg sp = length msg \<and> (\<forall>i. sp \<le> i \<and> i < length msg \<longrightarrow> \<not> from_match msg i)) \<or>
     (\<exists>i. sp \<le> i \<and> i < length msg \<and> from_match msg i \<and>
          (\<forall>j. sp \<le> j \<and> j < i \<longrightarrow> \<not> from_match msg j) \<and> mbox_scan msg sp = back_up msg i)"
proof (induction msg sp rule: mbox_scan.induct)
  case (1 msg i)
  show ?case
  proof (cases "i < length msg")
    case False
    then have "mbox_scan msg i = i" by (simp add: mbox_scan.simps [of msg i])
    with False "1.prems" show ?thesis by auto
  next
    case True
    show ?thesis
    proof (cases "from_match msg i")
      case m: True
      with True have "mbox_scan msg i = back_up msg i" by (simp add: mbox_scan.simps [of msg i])
      with True m show ?thesis by (intro disjI2 exI [of _ i]) auto
    next
      case m: False
      with True have eq: "mbox_scan msg i = mbox_scan msg (i + 1)"
        by (simp add: mbox_scan.simps [of msg i])
      from True have le: "i + 1 \<le> length msg" by simp
      from "1.IH" [OF True m le] show ?thesis
      proof (elim disjE exE conjE)
        assume a: "mbox_scan msg (i + 1) = length msg"
          "\<forall>j. i + 1 \<le> j \<and> j < length msg \<longrightarrow> \<not> from_match msg j"
        have "\<forall>j. i \<le> j \<and> j < length msg \<longrightarrow> \<not> from_match msg j"
        proof (intro allI impI)
          fix j assume "i \<le> j \<and> j < length msg"
          then show "\<not> from_match msg j" using a(2) m by (cases "j = i") auto
        qed
        with a eq show ?thesis by simp
      next
        fix i' assume a: "i + 1 \<le> i'" "i' < length msg" "from_match msg i'"
          "\<forall>j. i + 1 \<le> j \<and> j < i' \<longrightarrow> \<not> from_match msg j"
          "mbox_scan msg (i + 1) = back_up msg i'"
        have "\<forall>j. i \<le> j \<and> j < i' \<longrightarrow> \<not> from_match msg j"
        proof (intro allI impI)
          fix j assume "i \<le> j \<and> j < i'"
          then show "\<not> from_match msg j" using a(4) m by (cases "j = i") auto
        qed
        with a eq show ?thesis by (intro disjI2 exI [of _ i']) auto
      qed
    qed
  qed
qed

lemma body_of_length [simp]: "length (body_of mbox b) = io_limit mbox b - offset b"
  by (simp add: body_of_def io_limit_def)

lemma consistent_bound:
  "consistent mbox b \<Longrightarrow> offset b + length (buffer b) \<le> io_limit mbox b"
proof -
  assume c: "consistent mbox b"
  then have "length (take (length (buffer b)) (body_of mbox b)) = length (buffer b)"
    by (simp add: consistent_def)
  then have "length (buffer b) \<le> io_limit mbox b - offset b" by simp
  moreover from c have "offset b \<le> io_limit mbox b" by (simp add: consistent_def)
  ultimately show ?thesis by arith
qed

lemma from_match_plus:
  "from_match msg (j + 5) \<longleftrightarrow>
     msg ! j = LF \<and> msg ! (j + 1) = CHR ''F'' \<and> msg ! (j + 2) = CHR ''r'' \<and>
     msg ! (j + 3) = CHR ''o'' \<and> msg ! (j + 4) = CHR ''m'' \<and> msg ! (j + 5) = CHR '' ''"
  unfolding from_match_def by (auto simp: add.commute)

lemma body_of_later:
  assumes "io_size b = io_size b0" "offset b0 \<le> offset b"
  shows "body_of mbox b = drop (offset b - offset b0) (body_of mbox b0)"
  using assms by (simp add: body_of_def io_limit_def)

lemma window_nth:
  assumes c: "consistent mbox b" and sz: "io_size b = io_size b0" and le: "offset b0 \<le> offset b"
    and i: "i < length (buffer b)"
  shows "buffer b ! i = body_of mbox b0 ! (offset b - offset b0 + i) \<and>
         offset b - offset b0 + i < length (body_of mbox b0)"
proof -
  have lim: "io_limit mbox b = io_limit mbox b0" using sz by (simp add: io_limit_def)
  from consistent_bound [OF c] i lim le
  have bound: "offset b - offset b0 + i < length (body_of mbox b0)" by simp
  from c have "buffer b ! i = take (length (buffer b)) (body_of mbox b) ! i"
    by (simp add: consistent_def)
  also have "\<dots> = body_of mbox b ! i" using i by simp
  also have "\<dots> = body_of mbox b0 ! (offset b - offset b0 + i)"
    using bound by (simp add: body_of_later [OF sz le])
  finally show ?thesis using bound by simp
qed

lemma read_data_consistent:
  assumes c: "consistent mbox b" and rd: "io_buffer_read_data mbox b t = (ret, msg, b1)"
  shows "consistent mbox b1 \<and> offset b1 = offset b \<and> io_size b1 = io_size b \<and>
         (ret < 0 \<longrightarrow> b1 = b \<and> length (buffer b) \<le> t \<and>
                     offset b + length (buffer b) = io_limit mbox b) \<and>
         (0 \<le> ret \<longrightarrow> msg = buffer b1 \<and> msg \<noteq> [] \<and> length (buffer b) \<le> length msg \<and>
                     (length (buffer b) \<le> t \<longrightarrow> length (buffer b) < length msg))"
proof -
  note bnd = consistent_bound [OF c]
  from read_data_cases [OF rd] consider
    (fail) "ret < 0" "msg = []" "b1 = b" "length (buffer b) \<le> t"
      "\<not> offset b + length (buffer b) < io_limit mbox b"
    | (keep) "0 \<le> ret" "msg = buffer b" "b1 = b" "t < length (buffer b)"
    | (more) "0 \<le> ret" "msg = buffer b1" "length (buffer b) \<le> t"
      "offset b1 = offset b" "io_size b1 = io_size b"
      "length (buffer b) < length (buffer b1)"
      "offset b + length (buffer b1) \<le> io_limit mbox b"
      "buffer b1 = buffer b @ take (length (buffer b1) - length (buffer b))
                        (drop (offset b + length (buffer b)) (take (io_limit mbox b) mbox))"
    by blast
  then show ?thesis
  proof cases
    case fail
    with c bnd show ?thesis by auto
  next
    case keep
    with c show ?thesis by auto
  next
    case more
    let ?n = "length (buffer b)" and ?n1 = "length (buffer b1)"
    let ?body = "body_of mbox b"
    have lim: "io_limit mbox b1 = io_limit mbox b" using more by (simp add: io_limit_def)
    have same: "body_of mbox b1 = ?body" using more lim by (simp add: body_of_def)
    have "take ?n1 ?body = take (?n + (?n1 - ?n)) ?body" using more by simp
    also have "\<dots> = take ?n ?body @ take (?n1 - ?n) (drop ?n ?body)" by (rule take_add)
    also have "take ?n ?body = buffer b" using c by (simp add: consistent_def)
    also have "drop ?n ?body = drop (offset b + ?n) (take (io_limit mbox b) mbox)"
      by (simp add: body_of_def add.commute)
    finally have "take ?n1 ?body = buffer b1" using more by simp
    with c same lim more show ?thesis by (auto simp: consistent_def)
  qed
qed

text \<open>In a window that follows the body, the test of the scanner is the separator test.\<close>

lemma from_match_sep_at:
  assumes c: "consistent mbox b" and sz: "io_size b = io_size b0" and le: "offset b0 \<le> offset b"
    and i: "j + 5 < length (buffer b)"
  shows "from_match (buffer b) (j + 5) \<longleftrightarrow> sep_at (body_of mbox b0) (offset b - offset b0 + j)"
proof -
  let ?P = "offset b - offset b0"
  have n: "\<And>d. d \<le> 5 \<Longrightarrow> buffer b ! (j + d) = body_of mbox b0 ! (?P + j + d)"
    using window_nth [OF c sz le] i by (simp add: add.assoc)
  have bound: "?P + j + 5 < length (body_of mbox b0)"
    using window_nth [OF c sz le i] by (simp add: add.assoc)
  show ?thesis
    unfolding from_match_plus sep_at_nth
    using bound n [of 0] n [of 1] n [of 2] n [of 3] n [of 4] n [of 5]
    by simp
qed

lemma back_up_back_over_cr:
  assumes c: "consistent mbox b" and sz: "io_size b = io_size b0" and le: "offset b0 \<le> offset b"
    and i: "i < length (buffer b)" and i5: "5 \<le> i" and far: "offset b = offset b0 \<or> 6 \<le> i"
  shows "offset b - offset b0 + back_up (buffer b) i =
         back_over_cr (body_of mbox b0) (offset b - offset b0 + i - 5)"
proof -
  let ?P = "offset b - offset b0"
  have n: "\<And>j. j \<le> i \<Longrightarrow> buffer b ! j = body_of mbox b0 ! (?P + j)"
    using window_nth [OF c sz le] i by simp
  show ?thesis
  proof (cases "i = 5")
    case True
    with far le have "?P = 0" by auto
    with True show ?thesis by (simp add: back_up_def back_over_cr_def)
  next
    case False
    with i5 have "6 \<le> i" by simp
    then have "?P + i - 5 - 1 = ?P + (i - 6)" "0 < ?P + i - 5" "0 < i - 5" "i - 5 - 1 = i - 6"
      by simp_all
    with n [of "i - 6"] \<open>6 \<le> i\<close> show ?thesis
      by (auto simp: back_up_def back_over_cr_def Let_def)
  qed
qed

lemma skip_consistent:
  assumes c: "consistent mbox b" and d: "d \<le> length (buffer b)"
  shows "consistent mbox (io_buffer_skip b d)"
proof -
  note bnd = consistent_bound [OF c]
  have lim: "io_limit mbox (io_buffer_skip b d) = io_limit mbox b"
    by (simp add: io_limit_def io_buffer_skip_def)
  have body: "body_of mbox (io_buffer_skip b d) = drop d (body_of mbox b)"
    by (simp add: body_of_def io_limit_def io_buffer_skip_def add.commute)
  have "take (length (buffer b) - d) (drop d (body_of mbox b)) =
        drop d (take (length (buffer b)) (body_of mbox b))"
    by (simp add: drop_take)
  also have "\<dots> = drop d (buffer b)" using c by (simp add: consistent_def)
  finally have "take (length (buffer (io_buffer_skip b d))) (body_of mbox (io_buffer_skip b d)) =
      buffer (io_buffer_skip b d)"
    unfolding body by (simp add: io_buffer_skip_def)
  moreover have "offset (io_buffer_skip b d) \<le> io_limit mbox (io_buffer_skip b d)"
    using bnd d lim by simp
  ultimately show ?thesis by (simp add: consistent_def)
qed

lemma pass_correct:
  assumes inv: "scanned mbox b0 b sp" and p: "mbox_read_pass mbox b sp = r"
  shows "case r of
      Pass_eof b1 \<Rightarrow> b1 = b \<and> first_sep (body_of mbox b0) = None \<and>
        offset b + length (buffer b) = offset b0 + length (body_of mbox b0) \<and>
        sp = length (buffer b)
    | Pass_found i b1 \<Rightarrow>
        (\<exists>k. first_sep (body_of mbox b0) = Some k \<and>
             offset b1 + i = offset b0 + back_over_cr (body_of mbox b0) k)
    | Pass_again sp' b1 \<Rightarrow> scanned mbox b0 b1 sp'"
proof -
  let ?body = "body_of mbox b0"
  let ?P = "offset b - offset b0"
  from inv have c: "consistent mbox b" and sz: "io_size b = io_size b0"
    and le: "offset b0 \<le> offset b" and spn: "sp \<le> length (buffer b)"
    and far: "offset b = offset b0 \<or> 6 \<le> sp"
    and nosep: "\<And>k. k + 5 < ?P + sp \<Longrightarrow> \<not> sep_at ?body k"
    by (auto simp: scanned_def)
  have lim: "io_limit mbox b = io_limit mbox b0" using sz by (simp add: io_limit_def)
  obtain ret msg b1 where rd: "io_buffer_read_data mbox b sp = (ret, msg, b1)"
    by (cases "io_buffer_read_data mbox b sp") auto
  note rc = read_data_consistent [OF c rd]
  from rc have c1: "consistent mbox b1" and o1: "offset b1 = offset b"
    and sz1: "io_size b1 = io_size b0" using sz by simp_all
  show ?thesis
  proof (cases "ret < 0")
    case True
    with p rd have r: "r = Pass_eof b1" by (simp add: mbox_read_pass_def)
    from rc True have e: "b1 = b" "length (buffer b) \<le> sp"
      "offset b + length (buffer b) = io_limit mbox b" by auto
    from e spn have sp: "sp = length (buffer b)" by simp
    from consistent_bound [OF c] le lim e
    have total: "offset b + length (buffer b) = offset b0 + length ?body" by simp
    have "first_sep ?body = None"
    proof (rule first_sep_None)
      fix k
      show "\<not> sep_at ?body k"
      proof
        assume "sep_at ?body k"
        then have "k + 5 < length ?body" by (simp add: sep_at_nth)
        with total sp le have "k + 5 < ?P + sp" by simp
        from nosep [OF this] \<open>sep_at ?body k\<close> show False by simp
      qed
    qed
    with r e sp total show ?thesis by simp
  next
    case False
    with rc have m: "msg = buffer b1" "msg \<noteq> []" "length (buffer b) \<le> length msg" by auto
    from m spn have spm: "sp \<le> length msg" by simp
    have one: "\<not> sep_at ?body k"
      if "sp \<le> i" "i < length msg" "\<not> from_match msg i" "k + 5 = ?P + i" for i k
    proof (cases "i < 5")
      case True
      with that far have "?P = 0" by auto
      with that True show ?thesis by simp
    next
      case False
      then have i: "i = (i - 5) + 5" by simp
      from that m have "i - 5 + 5 < length (buffer b1)" using False by simp
      from from_match_sep_at [OF c1 sz1 _ this, unfolded o1, OF le] that i m
      have "\<not> sep_at ?body (?P + (i - 5))" by simp
      moreover from that False have "k = ?P + (i - 5)" by simp
      ultimately show ?thesis by simp
    qed
    have upto: "\<not> sep_at ?body k"
      if "\<forall>i. sp \<le> i \<and> i < n \<longrightarrow> \<not> from_match msg i" "n \<le> length msg" "k + 5 < ?P + n" for n k
    proof (cases "k + 5 < ?P + sp")
      case True
      then show ?thesis by (rule nosep)
    next
      case False
      let ?i = "k + 5 - ?P"
      from False that have "sp \<le> ?i" "?i < n" "k + 5 = ?P + ?i" by simp_all
      with that show ?thesis by (intro one [of ?i]) auto
    qed
    from scan_result [OF spm] show ?thesis
    proof (elim disjE exE conjE)
      assume none: "mbox_scan msg sp = length msg"
        "\<forall>i. sp \<le> i \<and> i < length msg \<longrightarrow> \<not> from_match msg i"
      let ?sp' = "min (length msg) 7"
      let ?d = "length msg - ?sp'"
      let ?b' = "io_buffer_skip b1 ?d"
      from p rd False none m have r: "r = Pass_again ?sp' ?b'"
        by (auto simp: mbox_read_pass_def Let_def min_def)
      have "?d \<le> length (buffer b1)" using m(1) by simp
      with c1 have "consistent mbox ?b'" by (rule skip_consistent)
      moreover have "io_size ?b' = io_size b0" using sz1 by (simp add: io_buffer_skip_def)
      moreover have "offset b0 \<le> offset ?b'" using le o1 by simp
      moreover have "?sp' \<le> length (buffer ?b')" using m by (simp add: io_buffer_skip_def)
      moreover have "offset ?b' = offset b0 \<or> 6 \<le> ?sp'"
        using far spm o1 by (auto simp: min_def)
      moreover have "\<forall>k. k + 5 < offset ?b' - offset b0 + ?sp' \<longrightarrow> \<not> sep_at ?body k"
      proof (intro allI impI)
        fix k assume "k + 5 < offset ?b' - offset b0 + ?sp'"
        with le o1 have "k + 5 < ?P + length msg" by (simp add: min_def split: if_splits)
        with none(2) show "\<not> sep_at ?body k" by (intro upto [of "length msg"]) auto
      qed
      ultimately have "scanned mbox b0 ?b' ?sp'" by (simp add: scanned_def)
      with r show ?thesis by simp
    next
      fix i
      assume f: "sp \<le> i" "i < length msg" "from_match msg i"
        "\<forall>j. sp \<le> j \<and> j < i \<longrightarrow> \<not> from_match msg j" "mbox_scan msg sp = back_up msg i"
      from f(3) have i5: "5 \<le> i" by (simp add: from_match_def)
      have "back_up msg i \<le> i - 5" by (auto simp: back_up_def Let_def)
      with f have lt: "back_up msg i < length msg" by simp
      with p rd False f have r: "r = Pass_found (back_up msg i) b1"
        by (simp add: mbox_read_pass_def Let_def)
      let ?k = "?P + (i - 5)"
      from i5 f m have il: "i - 5 + 5 < length (buffer b1)" by simp
      from from_match_sep_at [OF c1 sz1 _ il, unfolded o1, OF le] f(3) i5 m
      have s: "sep_at ?body ?k" by simp
      have before: "\<not> sep_at ?body j" if "j < ?k" for j
      proof -
        from that i5 have "j + 5 < ?P + i" by simp
        with f show ?thesis by (intro upto [of i]) auto
      qed
      from s before have fs: "first_sep ?body = Some ?k" by (rule first_sep_Some)
      from far f have far': "offset b = offset b0 \<or> 6 \<le> i" by auto
      from f m have ib: "i < length (buffer b1)" by simp
      from back_up_back_over_cr [OF c1 sz1 _ ib i5, unfolded o1, OF le far'] i5 m
      have "?P + back_up msg i = back_over_cr ?body ?k" by simp
      with le o1 have "offset b1 + back_up msg i = offset b0 + back_over_cr ?body ?k" by simp
      with fs r show ?thesis by simp
    qed
  qed
qed

lemma read_loop_correct:
  "scanned mbox b0 b sp \<Longrightarrow> mbox_read_loop mbox b sp = (lastmsg, sp', b') \<Longrightarrow>
     (lastmsg \<longrightarrow>
        first_sep (body_of mbox b0) = None \<and> consistent mbox b' \<and> io_size b' = io_size b0 \<and>
        offset b0 \<le> offset b' \<and>
        offset b' + length (buffer b') = offset b0 + length (body_of mbox b0) \<and>
        sp' = length (buffer b') \<and> (offset b' = offset b0 \<or> 6 \<le> sp')) \<and>
     (\<not> lastmsg \<longrightarrow>
        (\<exists>k. first_sep (body_of mbox b0) = Some k \<and>
             offset b' + sp' = offset b0 + back_over_cr (body_of mbox b0) k))"
proof (induction mbox b sp rule: mbox_read_loop.induct)
  case (1 mbox b startpos)
  note pc = pass_correct [OF "1.prems"(1) refl]
  show ?case
  proof (cases "mbox_read_pass mbox b startpos")
    case (Pass_eof b1)
    with "1.prems"(2) have res: "lastmsg" "sp' = startpos" "b' = b1"
      by (simp_all add: mbox_read_loop.simps [of mbox b startpos])
    from pc Pass_eof "1.prems"(1) res show ?thesis by (auto simp: scanned_def)
  next
    case (Pass_found i b1)
    with "1.prems"(2) have res: "\<not> lastmsg" "sp' = i" "b' = b1"
      by (simp_all add: mbox_read_loop.simps [of mbox b startpos])
    from pc Pass_found res show ?thesis by auto
  next
    case (Pass_again sp1 b1)
    with "1.prems"(2) have run: "mbox_read_loop mbox b1 sp1 = (lastmsg, sp', b')"
      by (simp add: mbox_read_loop.simps [of mbox b startpos])
    from pc Pass_again have "scanned mbox b0 b1 sp1" by simp
    from "1.IH" [OF Pass_again this run] show ?thesis .
  qed
qed

lemma scanned_start: "consistent mbox b \<Longrightarrow> scanned mbox b b 0"
  by (simp add: scanned_def)

lemma trim_last_trimmed:
  assumes c: "consistent mbox b'" and sz: "io_size b' = io_size b0" and le: "offset b0 \<le> offset b'"
    and total: "offset b' + length (buffer b') = offset b0 + length (body_of mbox b0)"
    and far: "offset b' = offset b0 \<or> 6 \<le> length (buffer b')"
    and pos: "0 < length (buffer b')"
  shows "offset b' + trim_last b' (length (buffer b')) = offset b0 + trimmed (body_of mbox b0)"
proof -
  let ?body = "body_of mbox b0"
  let ?P = "offset b' - offset b0"
  let ?n = "length (buffer b')"
  have n: "\<And>j. j < ?n \<Longrightarrow> buffer b' ! j = ?body ! (?P + j)"
    using window_nth [OF c sz le] by simp
  from total le have len: "length ?body = ?P + ?n" by simp
  have last: "buffer b' ! (?n - 1) = ?body ! (length ?body - 1)"
    using n [of "?n - 1"] pos len by simp
  show ?thesis
  proof (cases "?n = 1")
    case True
    with far le have "?P = 0" by auto
    with True len last le show ?thesis
      by (auto simp: trim_last_def trimmed_def io_buffer_get_data_def Let_def)
  next
    case False
    with pos have "2 \<le> ?n" by arith
    then obtain m where m: "?n = m + 2" by (auto simp: le_iff_add add.commute)
    have e1: "buffer b' ! (m + 1) = ?body ! (?P + m + 1)"
      and e0: "buffer b' ! m = ?body ! (?P + m)"
      using n [of "m + 1"] n [of m] m by (simp_all add: add.assoc)
    have len': "length ?body = ?P + m + 2" using len m by simp
    have tl: "trim_last b' (m + 2) =
        (if buffer b' ! (m + 1) = LF then (if buffer b' ! m = CR then m else m + 1)
         else (if buffer b' ! (m + 1) = CR then m + 1 else m + 2))"
      using m by (simp add: trim_last_def io_buffer_get_data_def Let_def)
    have tr: "trimmed ?body =
        (if ?body ! (?P + m + 1) = LF then (if ?body ! (?P + m) = CR then ?P + m else ?P + m + 1)
         else (if ?body ! (?P + m + 1) = CR then ?P + m + 1 else ?P + m + 2))"
      unfolding trimmed_def Let_def len' by simp
    have "?P + trim_last b' (m + 2) = trimmed ?body"
      unfolding tl tr e1 e0 by simp
    with le m show ?thesis by simp
  qed
qed

lemma read_message_correct:
  assumes c: "consistent mbox b"
  shows "offset (mbox_read_message mbox b) = offset b + boundary (body_of mbox b) \<and>
         (fst (mbox_read_loop mbox b 0) \<longleftrightarrow> first_sep (body_of mbox b) = None)"
proof -
  let ?body = "body_of mbox b"
  obtain lastmsg sp' b' where loop: "mbox_read_loop mbox b 0 = (lastmsg, sp', b')"
    by (cases "mbox_read_loop mbox b 0") auto
  note rl = read_loop_correct [OF scanned_start [OF c] loop]
  show ?thesis
  proof (cases lastmsg)
    case False
    with rl obtain k where k: "first_sep ?body = Some k"
      "offset b' + sp' = offset b + back_over_cr ?body k" by auto
    with loop False show ?thesis by (simp add: mbox_read_message_def boundary_def)
  next
    case True
    with rl have f: "first_sep ?body = None" "consistent mbox b'" "io_size b' = io_size b"
      "offset b \<le> offset b'" "offset b' + length (buffer b') = offset b + length ?body"
      "sp' = length (buffer b')" "offset b' = offset b \<or> 6 \<le> length (buffer b')"
      by auto
    show ?thesis
    proof (cases "0 < sp'")
      case pos: True
      from trim_last_trimmed [OF f(2) f(3) f(4) f(5) f(7)] pos f(6)
      have "offset b' + trim_last b' sp' = offset b + trimmed ?body" by simp
      with loop True pos f(1) show ?thesis by (simp add: mbox_read_message_def boundary_def)
    next
      case False
      with f have "length ?body = 0" "offset b' = offset b" by auto
      then have "trimmed ?body = 0" by (simp add: trimmed_def)
      with loop True False f(1) \<open>offset b' = offset b\<close> show ?thesis
        by (simp add: mbox_read_message_def boundary_def)
    qed
  qed
qed

lemma trimmed_forms:
  "(\<exists>ys. xs = ys @ [CR, LF] \<and> trimmed xs = length ys) \<or>
   (\<exists>ys. xs = ys @ [LF] \<and> (ys = [] \<or> last ys \<noteq> CR) \<and> trimmed xs = length ys) \<or>
   (\<exists>ys. xs = ys @ [CR] \<and> trimmed xs = length ys) \<or>
   ((xs = [] \<or> last xs \<noteq> LF \<and> last xs \<noteq> CR) \<and> trimmed xs = length xs)"
proof (cases xs rule: rev_cases)
  case Nil
  then show ?thesis by (simp add: trimmed_def)
next
  case (snoc ys y)
  show ?thesis
  proof (cases "y = LF")
    case True
    show ?thesis
    proof (cases ys rule: rev_cases)
      case Nil
      with snoc True show ?thesis by (simp add: trimmed_def)
    next
      case (snoc zs z)
      with \<open>xs = ys @ [y]\<close> True show ?thesis
        by (auto simp: trimmed_def Let_def nth_append)
    qed
  next
    case False
    with snoc show ?thesis by (auto simp: trimmed_def Let_def nth_append)
  qed
qed

lemma trimmed_claimed:
  "trimmed xs = (if xs \<noteq> [] \<and> last xs = CR then length xs - 1 else claimed_end xs)"
proof (cases xs rule: rev_cases)
  case Nil
  then show ?thesis by (simp add: trimmed_def claimed_end_def)
next
  case (snoc ys y)
  show ?thesis
  proof (cases ys rule: rev_cases)
    case Nil
    with snoc show ?thesis by (auto simp: trimmed_def claimed_end_def Let_def)
  next
    case (snoc zs z)
    with \<open>xs = ys @ [y]\<close> show ?thesis
      by (auto simp: trimmed_def claimed_end_def Let_def nth_append)
  qed
qed

lemma lead_nth:
  assumes "take 5 xs = ''From ''"
  shows "5 \<le> length xs \<and> (\<forall>i<5. xs ! i \<noteq> LF \<and> xs ! i \<noteq> CR)"
proof -
  from assms have "length (take 5 xs) = 5" by simp
  then have len: "5 \<le> length xs" by simp
  have "xs ! i \<noteq> LF \<and> xs ! i \<noteq> CR" if "i < 5" for i
  proof -
    from that have "xs ! i = take 5 xs ! i" by simp
    also have "\<dots> = ''From '' ! i" by (simp add: assms)
    also have "\<dots> \<in> set ''From ''" using that by (intro nth_mem) simp
    finally show ?thesis by auto
  qed
  with len show ?thesis by simp
qed

lemma boundary_after_lead:
  assumes lead: "take 5 xs = ''From ''"
  shows "5 \<le> boundary xs \<and> (\<forall>k. first_sep xs = Some k \<longrightarrow> 5 \<le> k)"
proof -
  note l = lead_nth [OF lead]
  have k5: "5 \<le> k" if "first_sep xs = Some k" for k
  proof (rule ccontr)
    assume "\<not> 5 \<le> k"
    then have "k < 5" by simp
    with l have "xs ! k \<noteq> LF" by simp
    moreover from first_sep_SomeD [OF that] have "xs ! k = LF" by (simp add: sep_at_nth)
    ultimately show False by simp
  qed
  have "5 \<le> boundary xs"
  proof (cases "first_sep xs")
    case (Some k)
    from k5 [OF Some] have "5 \<le> k" .
    moreover have "xs ! (k - 1) \<noteq> CR" if "k = 5" using that l by simp
    ultimately have "5 \<le> back_over_cr xs k" by (cases "k = 5") (auto simp: back_over_cr_def)
    with Some show ?thesis by (simp add: boundary_def)
  next
    case None
    from l have len: "5 \<le> length xs" and l4: "xs ! 4 \<noteq> LF" "xs ! 4 \<noteq> CR" by simp_all
    have "5 \<le> trimmed xs"
    proof (cases "length xs = 5")
      case True
      with l4 show ?thesis by (simp add: trimmed_def Let_def)
    next
      case False
      with len have six: "6 \<le> length xs" by simp
      show ?thesis
      proof (cases "length xs = 6")
        case True
        with l4 show ?thesis by (simp add: trimmed_def Let_def)
      next
        case False
        with six have "7 \<le> length xs" by simp
        then show ?thesis by (auto simp: trimmed_def Let_def)
      qed
    qed
    with None show ?thesis by (simp add: boundary_def)
  qed
  with k5 show ?thesis by blast
qed

lemma back_over_cr_start:
  assumes "sep_at xs k"
  shows "take 6 (drop (back_over_cr xs k) xs) = LF # ''From '' \<or>
         take 7 (drop (back_over_cr xs k) xs) = CR # LF # ''From ''"
proof (cases "0 < k \<and> xs ! (k - 1) = CR")
  case False
  with assms show ?thesis by (auto simp: back_over_cr_def sep_at_def)
next
  case True
  from assms have "k < length xs" by (simp add: sep_at_nth)
  with True have "drop (k - 1) xs = CR # drop k xs"
    using Cons_nth_drop_Suc [of "k - 1" xs] by simp
  with True assms show ?thesis by (simp add: back_over_cr_def sep_at_def)
qed

text \<open>
  The appender starts the scanner on a stream whose buffer holds bytes of the file, when
  it was itself started on one: reading the From-line and skipping it keep that.
\<close>

lemma from_line_loop_consistent:
  "consistent mbox b \<Longrightarrow> from_line_loop mbox b pos = (pos', data, b') \<Longrightarrow> consistent mbox b'"
proof (induction mbox b pos rule: from_line_loop.induct)
  case (1 mbox b pos)
  obtain ret d b1 where rd: "io_buffer_read_data mbox b pos = (ret, d, b1)"
    by (cases "io_buffer_read_data mbox b pos") auto
  from read_data_consistent [OF "1.prems"(1) rd] have c1: "consistent mbox b1" by simp
  show ?case
  proof (cases "from_line_turn mbox b pos")
    case (Inl r)
    with rd have "snd (snd r) = b1"
      by (auto simp: from_line_turn_def Let_def split: if_splits)
    with Inl "1.prems"(2) c1 show ?thesis
      by (auto simp: from_line_loop.simps [of mbox b pos])
  next
    case (Inr r)
    obtain p1 b2 where r: "r = (p1, b2)" by (cases r) auto
    with Inr rd have "b2 = b1"
      by (auto simp: from_line_turn_def Let_def split: if_splits)
    from Inr r "1.prems"(2) have "from_line_loop mbox b2 p1 = (pos', data, b')"
      by (simp add: from_line_loop.simps [of mbox b pos])
    from "1.IH" [OF Inr r [symmetric] _ this] c1 \<open>b2 = b1\<close> show ?thesis by simp
  qed
qed

lemma scanner_started_consistent:
  assumes c: "consistent mbox inbuf"
    and fl: "from_line_loop mbox inbuf 0 = (pos, data, b1)"
    and good: "\<not> from_line_bad pos data"
  shows "consistent mbox (io_buffer_skip b1 (pos + 1))"
proof -
  from good have "data \<noteq> []" by (auto simp: from_line_bad_def)
  with from_line_loop_steps [OF fl] have "pos + 1 \<le> length (buffer b1)" by auto
  with from_line_loop_consistent [OF c fl] show ?thesis by (rule skip_consistent)
qed

text \<open>
  The mailbox of two messages, read three bytes at a time: both messages are indexed,
  with the locations 9 and 25, and the stream is read to its end.
\<close>

lemma two_messages_indexed:
  "mbox_index_append ex_env ex_two ex_index
     \<lparr>start_offset = 0, offset = 0, io_size = 31, buffer = [], chunk = 3\<rparr> =
   (TRUE,
    \<lparr>mbox_path = ''/var/mail/a'', set_flags = {}, index_error = None,
       records = [\<lparr>uid = 1, msg_flags = 5, internal_date = 1000\<rparr>,
                  \<lparr>uid = 2, msg_flags = 5, internal_date = 1000\<rparr>],
       trace = [Ev_set_lock True] @
         written 0 9 ''0123456789abcdef'' @
         [Ev_update_end True, Ev_mark_flag_changes 0 5, Ev_fmsync True, Ev_set_uid 0 1,
          Ev_header_free_context] @
         written 1 25 ''0123456789abcdef'' @
         [Ev_update_end True, Ev_mark_flag_changes 1 5, Ev_fmsync True, Ev_set_uid 1 2,
          Ev_header_free_context]\<rparr>,
    \<lparr>start_offset = 0, offset = 31, io_size = 31, buffer = [], chunk = 3\<rparr>)"
  by code_simp

section \<open>Properties of the boundary scanner\<close>

subsection \<open>The lookback kept between two passes\<close>

text \<open>
  Claim C3, as amended. A turn of the loop whose read succeeded and whose scan of the
  window \<open>msg\<close> ran to its end without a match (line 51: \<^verbatim>\<open>i < size\<close> is false) goes
  on with \<^verbatim>\<open>startpos = min size 7\<close>: it skips all but the last 7 bytes of the window
  (nothing when the window has fewer than 7 bytes), so the buffer keeps exactly
  \<open>min (length msg) 7\<close> bytes of lookback, the last ones of the scanned window.
\<close>

theorem mbox_read_pass_lookback:
  assumes rd: "io_buffer_read_data mbox b startpos = (ret, msg, b1)"
    and ok: "0 \<le> ret"
    and sp: "startpos \<le> length msg"
    and none: "\<not> mbox_scan msg startpos < length msg"
  shows "mbox_read_pass mbox b startpos =
           Pass_again (min (length msg) 7) (io_buffer_skip b1 (length msg - min (length msg) 7)) \<and>
         offset (io_buffer_skip b1 (length msg - min (length msg) 7)) =
           offset b + (length msg - min (length msg) 7) \<and>
         buffer (io_buffer_skip b1 (length msg - min (length msg) 7)) =
           drop (length msg - min (length msg) 7) msg \<and>
         length (buffer (io_buffer_skip b1 (length msg - min (length msg) 7))) = min (length msg) 7"
proof -
  from mbox_scan_no_match [OF none] sp have i: "mbox_scan msg startpos = length msg"
    by (simp add: max_def)
  from read_data_cases [OF rd] ok have m: "msg = buffer b1" "offset b1 = offset b" "msg \<noteq> []"
    by auto
  have pass: "mbox_read_pass mbox b startpos =
      Pass_again (min (length msg) 7) (io_buffer_skip b1 (length msg - min (length msg) 7))"
    using rd ok i m by (auto simp: mbox_read_pass_def Let_def min_def)
  from m have rest: "offset (io_buffer_skip b1 (length msg - min (length msg) 7)) =
           offset b + (length msg - min (length msg) 7)"
     "buffer (io_buffer_skip b1 (length msg - min (length msg) 7)) =
           drop (length msg - min (length msg) 7) msg"
    by (simp_all add: io_buffer_skip_def)
  from pass rest show ?thesis by (simp add: min_def)
qed

text \<open>
  A buffer holding \<open>Hel\<close> already scanned, a read of six more bytes: the window
  \<open>Hello, wo\<close> has nine bytes, two are skipped and seven stay.
\<close>

theorem mbox_read_pass_lookback_witness:
  "mbox_read_pass ''Hello, world''
      \<lparr>start_offset = 0, offset = 0, io_size = 12, buffer = ''Hel'', chunk = 6\<rparr> 3 =
     Pass_again 7 \<lparr>start_offset = 0, offset = 2, io_size = 12, buffer = ''llo, wo'', chunk = 6\<rparr>"
proof -
  let ?b = "\<lparr>start_offset = 0, offset = 0, io_size = 12, buffer = ''Hel'', chunk = 6\<rparr>"
  let ?b1 = "\<lparr>start_offset = 0, offset = 0, io_size = 12, buffer = ''Hello, wo'', chunk = 6\<rparr>"
  have rd: "io_buffer_read_data ''Hello, world'' ?b 3 = (1, ''Hello, wo'', ?b1)"
    by code_simp
  have ok: "(0::int) \<le> 1" by simp
  have sp: "3 \<le> length ''Hello, wo''" by simp
  have none: "\<not> mbox_scan ''Hello, wo'' 3 < length ''Hello, wo''" by code_simp
  from mbox_read_pass_lookback [OF rd ok sp none] show ?thesis
    by (simp add: io_buffer_skip_def)
qed

text \<open>
  The claim as it was stated keeps 6 bytes. A window of ten bytes with no separator:
  the scanner skips three bytes and keeps seven, not six.
\<close>

theorem mbox_read_pass_six_counterexample:
  "mbox_read_pass ''0123456789''
      \<lparr>start_offset = 0, offset = 0, io_size = 10, buffer = [], chunk = 10\<rparr> 0 =
     Pass_again 7 \<lparr>start_offset = 0, offset = 3, io_size = 10, buffer = ''3456789'', chunk = 10\<rparr> \<and>
   length ''3456789'' \<noteq> 6"
  by code_simp

subsection \<open>The boundary is at a separator\<close>

text \<open>
  Claim C5. On a stream whose buffer holds bytes of the file, the scanner leaves its loop
  with a separator found (\<^verbatim>\<open>lastmsg\<close> false) exactly when the six bytes newline,
  \<open>F\<close>, \<open>r\<close>, \<open>o\<close>, \<open>m\<close>, space stand somewhere in the bytes from the cursor to the
  ceiling. The cursor is then moved to the first such place \<open>k\<close>, or one byte before it
  when a carriage return stands there: from the final cursor on, the stream reads
  newline \<open>From \<close> or carriage return, newline, \<open>From \<close>. A \<open>From \<close> that no newline
  precedes is not such a place.
\<close>

theorem boundary_only_at_separator:
  assumes c: "consistent mbox b"
  shows "(\<not> fst (mbox_read_loop mbox b 0) \<longleftrightarrow> (\<exists>k. sep_at (body_of mbox b) k)) \<and>
         (\<not> fst (mbox_read_loop mbox b 0) \<longleftrightarrow> (\<exists>k. first_sep (body_of mbox b) = Some k)) \<and>
         (\<forall>k. first_sep (body_of mbox b) = Some k \<longrightarrow>
            take 6 (drop k (body_of mbox b)) = LF # ''From '' \<and>
            (\<forall>j<k. \<not> sep_at (body_of mbox b) j) \<and>
            offset (mbox_read_message mbox b) =
              offset b + (if 0 < k \<and> body_of mbox b ! (k - 1) = CR then k - 1 else k) \<and>
            (take 6 (drop (offset (mbox_read_message mbox b) - offset b) (body_of mbox b)) =
               LF # ''From '' \<or>
             take 7 (drop (offset (mbox_read_message mbox b) - offset b) (body_of mbox b)) =
               CR # LF # ''From ''))"
proof -
  let ?body = "body_of mbox b"
  note rm = read_message_correct [OF c]
  have a: "\<not> fst (mbox_read_loop mbox b 0) \<longleftrightarrow> (\<exists>k. first_sep ?body = Some k)"
    using rm by auto
  have b: "(\<exists>k. first_sep ?body = Some k) \<longleftrightarrow> (\<exists>k. sep_at ?body k)"
  proof
    assume "\<exists>k. first_sep ?body = Some k"
    then show "\<exists>k. sep_at ?body k" using first_sep_SomeD by blast
  next
    assume "\<exists>k. sep_at ?body k"
    then have "first_sep ?body \<noteq> None" using first_sep_NoneD by blast
    then show "\<exists>k. first_sep ?body = Some k" by auto
  qed
  have found: "take 6 (drop k ?body) = LF # ''From '' \<and>
            (\<forall>j<k. \<not> sep_at ?body j) \<and>
            offset (mbox_read_message mbox b) =
              offset b + (if 0 < k \<and> ?body ! (k - 1) = CR then k - 1 else k) \<and>
            (take 6 (drop (offset (mbox_read_message mbox b) - offset b) ?body) = LF # ''From '' \<or>
             take 7 (drop (offset (mbox_read_message mbox b) - offset b) ?body) =
               CR # LF # ''From '')"
    if k: "first_sep ?body = Some k" for k
  proof -
    from first_sep_SomeD [OF k] have s: "sep_at ?body k" "\<forall>j<k. \<not> sep_at ?body j" by simp_all
    from rm k have off: "offset (mbox_read_message mbox b) = offset b + back_over_cr ?body k"
      by (simp add: boundary_def)
    from back_over_cr_start [OF s(1)] off s show ?thesis
      by (simp add: sep_at_def back_over_cr_def)
  qed
  from a b found show ?thesis by blast
qed

text \<open>
  A body with \<open>From \<close> in the middle of its first line, read four bytes at a time: the
  boundary is at offset 25, before the carriage return and the newline that precede
  \<open>From b\<close>, and not in the line \<open>Subject: From the team\<close>.
\<close>

theorem boundary_only_at_separator_witness:
  "first_sep (body_of ex_subject
      \<lparr>start_offset = 0, offset = 0, io_size = 35, buffer = [], chunk = 4\<rparr>) = Some 26 \<and>
   offset (mbox_read_message ex_subject
      \<lparr>start_offset = 0, offset = 0, io_size = 35, buffer = [], chunk = 4\<rparr>) = 25"
proof -
  let ?b = "\<lparr>start_offset = 0, offset = 0, io_size = 35, buffer = [], chunk = 4\<rparr>"
  have c: "consistent ex_subject ?b" by code_simp
  have k: "first_sep (body_of ex_subject ?b) = Some 26" by code_simp
  have cr: "body_of ex_subject ?b ! (26 - 1) = CR" by code_simp
  from boundary_only_at_separator [OF c] k cr show ?thesis by simp
qed

subsection \<open>The end of the last message\<close>

text \<open>
  When no separator follows the cursor, the scanner leaves its loop with \<^verbatim>\<open>lastmsg\<close>
  set and moves the cursor to the end of the stream less the bytes that lines 69 to 72
  remove: one newline if the stream ends with one, and then one carriage return if what
  is left ends with one. So at most two bytes are removed, and they are a carriage
  return and a newline, a newline alone, or a carriage return alone: the test of line 71
  does not ask that line 70 removed a newline. A stream that ends with two newlines
  keeps the first of them.
\<close>

lemma last_message_trimmed:
  assumes c: "consistent mbox b" and none: "first_sep (body_of mbox b) = None"
  shows "fst (mbox_read_loop mbox b 0) \<and>
         offset (mbox_read_message mbox b) = offset b + trimmed (body_of mbox b) \<and>
         length (body_of mbox b) - trimmed (body_of mbox b) \<le> 2 \<and>
         ((\<exists>ys. body_of mbox b = ys @ [CR, LF] \<and> trimmed (body_of mbox b) = length ys) \<or>
          (\<exists>ys. body_of mbox b = ys @ [LF] \<and> (ys = [] \<or> last ys \<noteq> CR) \<and>
                trimmed (body_of mbox b) = length ys) \<or>
          (\<exists>ys. body_of mbox b = ys @ [CR] \<and> trimmed (body_of mbox b) = length ys) \<or>
          ((body_of mbox b = [] \<or> last (body_of mbox b) \<noteq> LF \<and> last (body_of mbox b) \<noteq> CR) \<and>
           trimmed (body_of mbox b) = length (body_of mbox b))) \<and>
         (\<forall>ys. body_of mbox b = ys @ [LF, LF] \<longrightarrow> trimmed (body_of mbox b) = length ys + 1)"
proof -
  let ?body = "body_of mbox b"
  from read_message_correct [OF c] none
  have a: "fst (mbox_read_loop mbox b 0)"
    "offset (mbox_read_message mbox b) = offset b + trimmed ?body"
    by (simp_all add: boundary_def)
  note forms = trimmed_forms [of ?body]
  have two: "length ?body - trimmed ?body \<le> 2"
    using forms by (elim disjE exE conjE) simp_all
  have nl: "\<forall>ys. ?body = ys @ [LF, LF] \<longrightarrow> trimmed ?body = length ys + 1"
    by (auto simp: trimmed_def Let_def nth_append)
  from a forms two nl show ?thesis by blast
qed

text \<open>
  The mailbox of the specification, at the start of its second body \<open>Body2\<close>: the cursor
  stops at offset 30, before the last newline.
\<close>

lemma last_message_trimmed_example:
  "offset (mbox_read_message ex_two
      \<lparr>start_offset = 0, offset = 25, io_size = 31, buffer = ''Bo'', chunk = 3\<rparr>) = 30"
proof -
  let ?b = "\<lparr>start_offset = 0, offset = 25, io_size = 31, buffer = ''Bo'', chunk = 3\<rparr>"
  have c: "consistent ex_two ?b" by code_simp
  have none: "first_sep (body_of ex_two ?b) = None" by code_simp
  have t: "trimmed (body_of ex_two ?b) = 5" by code_simp
  from last_message_trimmed [OF c none] t show ?thesis by simp
qed

text \<open>
  Against \<open>claimed_end\<close>: the scanner ends the last message where the specification and
  the comment of line 66 put its end, except when the stream ends with a carriage
  return; then it ends one byte before.
\<close>

lemma last_message_end_against_claim:
  assumes c: "consistent mbox b" and none: "first_sep (body_of mbox b) = None"
  shows "offset (mbox_read_message mbox b) =
           offset b + (if body_of mbox b \<noteq> [] \<and> last (body_of mbox b) = CR
                       then length (body_of mbox b) - 1
                       else claimed_end (body_of mbox b))"
  using last_message_trimmed [OF c none] trimmed_claimed [of "body_of mbox b"] by simp

text \<open>
  Claim C4. The last message ends before one trailing newline and before the carriage
  return that precedes that newline, and nothing else is removed. The code removes
  more: on the mailbox \<open>ex_cr\<close>, whose last body \<open>hello\<close> is followed by a carriage return
  and no newline, the scanner started at the body (offset 7) stops at offset 12 and so
  leaves the carriage return out of the body, where the claim, the specification and
  the comment of line 66 keep all six bytes (end at offset 13). The match path of lines
  44 to 46 removes a carriage return only before the newline of a separator.
\<close>

theorem lone_cr_trimmed_at_end_of_file:
  "consistent ex_cr \<lparr>start_offset = 0, offset = 7, io_size = 13, buffer = [], chunk = 4\<rparr> \<and>
   body_of ex_cr \<lparr>start_offset = 0, offset = 7, io_size = 13, buffer = [], chunk = 4\<rparr> =
     ''hello'' @ [CR] \<and>
   first_sep (''hello'' @ [CR]) = None \<and>
   offset (mbox_read_message ex_cr
     \<lparr>start_offset = 0, offset = 7, io_size = 13, buffer = [], chunk = 4\<rparr>) = 12 \<and>
   7 + claimed_end (''hello'' @ [CR]) = 13"
  by code_simp

text \<open>
  What follows in the driver: after the message of \<open>ex_cr\<close> the cursor stands on the
  carriage return, \<^verbatim>\<open>mbox_skip_crlf\<close> finds the end of the file behind it and answers
  true without moving, and the next turn reads the carriage return as a From-line. The
  run indexes the message and then fails with the flag FSCK set, where the same mailbox
  without the carriage return, or with a newline after it, is indexed with success.
\<close>

lemma lone_cr_mailbox_flagged:
  "fst (mbox_index_append ex_env ex_cr ex_index (ex_inbuf\<lparr>io_size := 13\<rparr>)) =
     FALSE From_line_not_found \<and>
   MAIL_INDEX_FLAG_FSCK \<in> set_flags (fst (snd (mbox_index_append ex_env ex_cr ex_index
     (ex_inbuf\<lparr>io_size := 13\<rparr>)))) \<and>
   length (records (fst (snd (mbox_index_append ex_env ex_cr ex_index
     (ex_inbuf\<lparr>io_size := 13\<rparr>))))) = 1 \<and>
   fst (mbox_index_append ex_env (''From a'' @ [LF] @ ''hello'') ex_index
     (ex_inbuf\<lparr>io_size := 12\<rparr>)) = TRUE \<and>
   fst (mbox_index_append ex_env (''From a'' @ [LF] @ ''hello'' @ [CR, LF]) ex_index
     (ex_inbuf\<lparr>io_size := 14\<rparr>)) = TRUE"
  by code_simp

subsection \<open>A body that begins with \<open>From \<close>\<close>

text \<open>
  Claim C8. When the bytes at the cursor, where the scan begins, are \<open>From \<close>, they are
  not taken for a separator: the first separator, if there is one, has its newline at
  index 5 or later, and the cursor ends at least five bytes further, so the line is part
  of the body of the message.
\<close>

theorem leading_from_is_body:
  assumes c: "consistent mbox b" and lead: "take 5 (body_of mbox b) = ''From ''"
  shows "offset b + 5 \<le> offset (mbox_read_message mbox b) \<and>
         (\<forall>k. first_sep (body_of mbox b) = Some k \<longrightarrow> 5 \<le> k) \<and>
         \<not> from_match (body_of mbox b) 4"
proof -
  from read_message_correct [OF c] boundary_after_lead [OF lead]
  have "offset b + 5 \<le> offset (mbox_read_message mbox b)"
    "\<forall>k. first_sep (body_of mbox b) = Some k \<longrightarrow> 5 \<le> k"
    by simp_all
  moreover have "\<not> from_match (body_of mbox b) 4" by (simp add: from_match_def)
  ultimately show ?thesis by blast
qed

text \<open>
  After the line \<open>From a\<close>, a body whose first line is \<open>From the start\<close>: it is the last
  message, and the cursor goes from offset 7 to offset 26, past that line.
\<close>

theorem leading_from_is_body_witness:
  "7 + 5 \<le> offset (mbox_read_message ex_lead
      \<lparr>start_offset = 0, offset = 7, io_size = 27, buffer = ''Fr'', chunk = 5\<rparr>) \<and>
   offset (mbox_read_message ex_lead
      \<lparr>start_offset = 0, offset = 7, io_size = 27, buffer = ''Fr'', chunk = 5\<rparr>) = 26"
proof -
  let ?b = "\<lparr>start_offset = 0, offset = 7, io_size = 27, buffer = ''Fr'', chunk = 5\<rparr>"
  have c: "consistent ex_lead ?b" by code_simp
  have lead: "take 5 (body_of ex_lead ?b) = ''From ''" by code_simp
  have v: "offset (mbox_read_message ex_lead ?b) = 26" by code_simp
  from leading_from_is_body [OF c lead] v show ?thesis by simp
qed

section \<open>Properties of the message transaction\<close>

subsection \<open>The uid is written last\<close>

text \<open>
  Claim C1. In the events of one call of \<^verbatim>\<open>mbox_index_append_next\<close>, a write of the
  record's uid comes only after the record was appended with its date, the location and
  the digest were handed to the update, the update was committed with success
  (\<^verbatim>\<open>update_end\<close>), the flags were stored and the barrier \<^verbatim>\<open>mail_index_fmsync\<close>
  succeeded, and the call then returns TRUE. When the commit or the barrier fails the call
  returns FALSE, no uid is written, and the record that was appended still has the uid 0.

  Success and failure are what the collaborators answer. \<open>commit_state\<close> is the index
  that \<^verbatim>\<open>update_end\<close> is called on (line 156) and \<open>sync_state\<close> the index that
  \<^verbatim>\<open>mail_index_fmsync\<close> is called on (line 166). A uid is written exactly when the
  From-line is valid, \<^verbatim>\<open>index->append\<close> gave a record and both answered true; it is then
  the uid that \<^verbatim>\<open>index->append\<close> gave, written as the last step before the header
  context is freed. When \<^verbatim>\<open>update_end\<close> answers false the call returns FALSE at line
  157, and when \<^verbatim>\<open>mail_index_fmsync\<close> answers false it returns FALSE at line 167; in
  both cases no uid is written and the appended record has the uid 0.
\<close>

theorem uid_written_after_commit_and_sync:
  assumes run: "mbox_index_append_next e mbox index inbuf = (st, index', inbuf')"
  shows "(\<forall>rec u. Ev_set_uid rec u \<in> set (new_events index index') \<longrightarrow>
            st = TRUE \<and>
            precedes (Ev_append True) (Ev_set_uid rec u) (new_events index index') \<and>
            precedes (Ev_update_end True) (Ev_set_uid rec u) (new_events index index') \<and>
            precedes (Ev_fmsync True) (Ev_set_uid rec u) (new_events index index') \<and>
            (\<exists>a. precedes (Ev_update_field_raw (FIELD_TYPE_LOCATION a)) (Ev_set_uid rec u)
                   (new_events index index')) \<and>
            (\<exists>d. precedes (Ev_update_field_raw (FIELD_TYPE_MD5 d)) (Ev_set_uid rec u)
                   (new_events index index')) \<and>
            (\<exists>flg. precedes (Ev_mark_flag_changes rec flg) (Ev_set_uid rec u)
                   (new_events index index'))) \<and>
         (Ev_update_end False \<in> set (new_events index index') \<or>
          Ev_fmsync False \<in> set (new_events index index') \<longrightarrow>
            st \<noteq> TRUE \<and>
            (\<forall>rec u. Ev_set_uid rec u \<notin> set (new_events index index')) \<and>
            (\<exists>r. records index' = records index @ [r] \<and> uid r = 0)) \<and>
         ((\<exists>rec u. Ev_set_uid rec u \<in> set (new_events index index')) \<longleftrightarrow>
            valid_from_line mbox inbuf \<and> append e index \<noteq> None \<and>
            update_end e (commit_state e mbox index inbuf) \<and>
            mail_index_fmsync e (sync_state e mbox index inbuf)) \<and>
         (Ev_update_end False \<in> set (new_events index index') \<longleftrightarrow>
            valid_from_line mbox inbuf \<and> append e index \<noteq> None \<and>
            \<not> update_end e (commit_state e mbox index inbuf)) \<and>
         (Ev_fmsync False \<in> set (new_events index index') \<longleftrightarrow>
            valid_from_line mbox inbuf \<and> append e index \<noteq> None \<and>
            update_end e (commit_state e mbox index inbuf) \<and>
            \<not> mail_index_fmsync e (sync_state e mbox index inbuf)) \<and>
         (valid_from_line mbox inbuf \<and> append e index \<noteq> None \<and>
          \<not> update_end e (commit_state e mbox index inbuf) \<longrightarrow>
            st = FALSE Update_end_failed \<and>
            (\<forall>rec u. Ev_set_uid rec u \<notin> set (new_events index index')) \<and>
            (\<exists>r. records index' = records index @ [r] \<and> uid r = 0)) \<and>
         (valid_from_line mbox inbuf \<and> append e index \<noteq> None \<and>
          update_end e (commit_state e mbox index inbuf) \<and>
          \<not> mail_index_fmsync e (sync_state e mbox index inbuf) \<longrightarrow>
            st = FALSE Fmsync_failed \<and>
            (\<forall>rec u. Ev_set_uid rec u \<notin> set (new_events index index')) \<and>
            (\<exists>r. records index' = records index @ [r] \<and> uid r = 0)) \<and>
         (\<forall>u. valid_from_line mbox inbuf \<and> append e index = Some u \<and>
          update_end e (commit_state e mbox index inbuf) \<and>
          mail_index_fmsync e (sync_state e mbox index inbuf) \<longrightarrow>
            st = TRUE \<and>
            last (butlast (new_events index index')) = Ev_set_uid (length (records index)) u \<and>
            (\<exists>r. records index' = records index @ [r] \<and> uid r = u))"
  using run
  by (cases rule: answer_cases) (auto simp: new_events_def written_def precedes_def)

text \<open>
  On the small mailbox: with a commit that fails and with a barrier that fails the call
  returns FALSE and the record keeps the uid 0; with every collaborator succeeding the
  uid 1 is written after the commit and the barrier.
\<close>

theorem uid_written_after_commit_and_sync_witness:
  "fst (mbox_index_append_next (ex_env\<lparr>update_end := (\<lambda>index. False)\<rparr>)
          ex_mbox ex_index ex_inbuf) = FALSE Update_end_failed \<and>
   (\<exists>r. records (fst (snd (mbox_index_append_next (ex_env\<lparr>update_end := (\<lambda>index. False)\<rparr>)
          ex_mbox ex_index ex_inbuf))) = records ex_index @ [r] \<and> uid r = 0) \<and>
   fst (mbox_index_append_next (ex_env\<lparr>mail_index_fmsync := (\<lambda>index. False)\<rparr>)
          ex_mbox ex_index ex_inbuf) = FALSE Fmsync_failed \<and>
   (\<exists>r. records (fst (snd (mbox_index_append_next (ex_env\<lparr>mail_index_fmsync := (\<lambda>index. False)\<rparr>)
          ex_mbox ex_index ex_inbuf))) = records ex_index @ [r] \<and> uid r = 0) \<and>
   fst (mbox_index_append_next ex_env ex_mbox ex_index ex_inbuf) = TRUE \<and>
   (\<exists>r. records (fst (snd (mbox_index_append_next ex_env ex_mbox ex_index ex_inbuf))) =
          records ex_index @ [r] \<and> uid r = 1) \<and>
   precedes (Ev_update_end True) (Ev_set_uid 0 1)
     (new_events ex_index (fst (snd (mbox_index_append_next ex_env ex_mbox ex_index ex_inbuf)))) \<and>
   precedes (Ev_fmsync True) (Ev_set_uid 0 1)
     (new_events ex_index (fst (snd (mbox_index_append_next ex_env ex_mbox ex_index ex_inbuf))))"
proof -
  let ?e1 = "ex_env\<lparr>update_end := (\<lambda>index. False)\<rparr>"
  let ?e2 = "ex_env\<lparr>mail_index_fmsync := (\<lambda>index. False)\<rparr>"
  have v: "valid_from_line ex_mbox ex_inbuf" by code_simp
  obtain st1 i1 b1 where
    run1: "mbox_index_append_next ?e1 ex_mbox ex_index ex_inbuf = (st1, i1, b1)"
    by (cases "mbox_index_append_next ?e1 ex_mbox ex_index ex_inbuf") auto
  have a1: "append ?e1 ex_index \<noteq> None"
    and c1: "\<not> update_end ?e1 (commit_state ?e1 ex_mbox ex_index ex_inbuf)"
    by (simp_all add: ex_env_def)
  obtain st2 i2 b2 where
    run2: "mbox_index_append_next ?e2 ex_mbox ex_index ex_inbuf = (st2, i2, b2)"
    by (cases "mbox_index_append_next ?e2 ex_mbox ex_index ex_inbuf") auto
  have a2: "append ?e2 ex_index \<noteq> None"
    and c2: "update_end ?e2 (commit_state ?e2 ex_mbox ex_index ex_inbuf)"
    and s2: "\<not> mail_index_fmsync ?e2 (sync_state ?e2 ex_mbox ex_index ex_inbuf)"
    by (simp_all add: ex_env_def)
  obtain st3 i3 b3 where
    run3: "mbox_index_append_next ex_env ex_mbox ex_index ex_inbuf = (st3, i3, b3)"
    by (cases "mbox_index_append_next ex_env ex_mbox ex_index ex_inbuf") auto
  have a3: "append ex_env ex_index = Some 1"
    and c3: "update_end ex_env (commit_state ex_env ex_mbox ex_index ex_inbuf)"
    and s3: "mail_index_fmsync ex_env (sync_state ex_env ex_mbox ex_index ex_inbuf)"
    by (simp_all add: ex_env_def ex_index_def)
  note t1 = uid_written_after_commit_and_sync [OF run1]
    and t2 = uid_written_after_commit_and_sync [OF run2]
    and t3 = uid_written_after_commit_and_sync [OF run3]
  from t1 v a1 c1 have r1: "st1 = FALSE Update_end_failed"
    "\<exists>r. records i1 = records ex_index @ [r] \<and> uid r = 0" by blast+
  from t2 v a2 c2 s2 have r2: "st2 = FALSE Fmsync_failed"
    "\<exists>r. records i2 = records ex_index @ [r] \<and> uid r = 0" by blast+
  from t3 v a3 c3 s3 have r3: "st3 = TRUE"
    "\<exists>r. records i3 = records ex_index @ [r] \<and> uid r = 1"
    "last (butlast (new_events ex_index i3)) = Ev_set_uid (length (records ex_index)) 1"
    by blast+
  have "new_events ex_index (fst (snd (mbox_index_append_next ex_env ex_mbox ex_index ex_inbuf)))
      \<noteq> []" by code_simp
  with run3 have ne: "new_events ex_index i3 \<noteq> []" by simp
  have "butlast (new_events ex_index (fst (snd (mbox_index_append_next ex_env ex_mbox ex_index ex_inbuf))))
      \<noteq> []" by code_simp
  with run3 have ne2: "butlast (new_events ex_index i3) \<noteq> []" by simp
  from r3(3) have "Ev_set_uid 0 1 = last (butlast (new_events ex_index i3))"
    by (simp add: ex_index_def)
  also from ne2 have "\<dots> \<in> set (butlast (new_events ex_index i3))" by (rule last_in_set)
  finally have mem: "Ev_set_uid 0 1 \<in> set (new_events ex_index i3)"
    by (rule in_set_butlastD)
  from t3 mem have p: "precedes (Ev_update_end True) (Ev_set_uid 0 1) (new_events ex_index i3)"
    "precedes (Ev_fmsync True) (Ev_set_uid 0 1) (new_events ex_index i3)" by blast+
  from r1 r2 r3 p show ?thesis unfolding run1 run2 run3 fst_conv snd_conv by blast
qed

subsection \<open>The header context when the barrier fails\<close>

text \<open>
  Claim C10. A call that fails at the barrier (\<^verbatim>\<open>mail_index_fmsync\<close> answered false
  after \<^verbatim>\<open>update_end\<close> answered true) returns at once: it has set up the header
  context once and never frees it. A call that succeeds, or that fails at the commit,
  sets the context up once and frees it once. The barrier answered false exactly in the
  calls that return at line 167. The three returns are told by the answers of
  \<^verbatim>\<open>update_end\<close> on \<open>commit_state\<close>, the index it is called on, and of
  \<^verbatim>\<open>mail_index_fmsync\<close> on \<open>sync_state\<close>, the index it is called on.
\<close>

theorem header_context_not_freed_when_sync_fails:
  assumes run: "mbox_index_append_next e mbox index inbuf = (st, index', inbuf')"
  shows "(Ev_fmsync False \<in> set (new_events index index') \<longleftrightarrow> st = FALSE Fmsync_failed) \<and>
         (st = FALSE Fmsync_failed \<longrightarrow>
            Ev_update_end True \<in> set (new_events index index') \<and>
            last (new_events index index') = Ev_fmsync False \<and>
            count_list (new_events index index') Ev_header_init_context = 1 \<and>
            count_list (new_events index index') Ev_header_free_context = 0) \<and>
         (st = TRUE \<or> st = FALSE Update_end_failed \<longrightarrow>
            count_list (new_events index index') Ev_header_init_context = 1 \<and>
            count_list (new_events index index') Ev_header_free_context = 1 \<and>
            last (new_events index index') = Ev_header_free_context) \<and>
         (st = FALSE Fmsync_failed \<longleftrightarrow>
            valid_from_line mbox inbuf \<and> append e index \<noteq> None \<and>
            update_end e (commit_state e mbox index inbuf) \<and>
            \<not> mail_index_fmsync e (sync_state e mbox index inbuf)) \<and>
         (st = FALSE Update_end_failed \<longleftrightarrow>
            valid_from_line mbox inbuf \<and> append e index \<noteq> None \<and>
            \<not> update_end e (commit_state e mbox index inbuf)) \<and>
         (st = TRUE \<longleftrightarrow>
            valid_from_line mbox inbuf \<and> append e index \<noteq> None \<and>
            update_end e (commit_state e mbox index inbuf) \<and>
            mail_index_fmsync e (sync_state e mbox index inbuf)) \<and>
         (valid_from_line mbox inbuf \<and> append e index \<noteq> None \<and>
          update_end e (commit_state e mbox index inbuf) \<and>
          \<not> mail_index_fmsync e (sync_state e mbox index inbuf) \<longrightarrow>
            count_list (new_events index index') Ev_header_init_context = 1 \<and>
            count_list (new_events index index') Ev_header_free_context = 0) \<and>
         (valid_from_line mbox inbuf \<and> append e index \<noteq> None \<and>
          \<not> update_end e (commit_state e mbox index inbuf) \<longrightarrow>
            count_list (new_events index index') Ev_header_init_context = 1 \<and>
            count_list (new_events index index') Ev_header_free_context = 1) \<and>
         (valid_from_line mbox inbuf \<and> append e index \<noteq> None \<and>
          update_end e (commit_state e mbox index inbuf) \<and>
          mail_index_fmsync e (sync_state e mbox index inbuf) \<longrightarrow>
            count_list (new_events index index') Ev_header_init_context = 1 \<and>
            count_list (new_events index index') Ev_header_free_context = 1)"
  using run
  by (cases rule: answer_cases) (auto simp: new_events_def written_def)

theorem header_context_not_freed_when_sync_fails_witness:
  "fst (mbox_index_append_next (ex_env\<lparr>mail_index_fmsync := (\<lambda>index. False)\<rparr>)
      ex_mbox ex_index ex_inbuf) = FALSE Fmsync_failed \<and>
   count_list (new_events ex_index (fst (snd (mbox_index_append_next
      (ex_env\<lparr>mail_index_fmsync := (\<lambda>index. False)\<rparr>) ex_mbox ex_index ex_inbuf))))
      Ev_header_free_context = 0 \<and>
   fst (mbox_index_append_next (ex_env\<lparr>update_end := (\<lambda>index. False)\<rparr>)
      ex_mbox ex_index ex_inbuf) = FALSE Update_end_failed \<and>
   count_list (new_events ex_index (fst (snd (mbox_index_append_next
      (ex_env\<lparr>update_end := (\<lambda>index. False)\<rparr>) ex_mbox ex_index ex_inbuf))))
      Ev_header_free_context = 1 \<and>
   fst (mbox_index_append_next ex_env ex_mbox ex_index ex_inbuf) = TRUE \<and>
   count_list (new_events ex_index (fst (snd (mbox_index_append_next
      ex_env ex_mbox ex_index ex_inbuf)))) Ev_header_free_context = 1"
proof -
  let ?e1 = "ex_env\<lparr>mail_index_fmsync := (\<lambda>index. False)\<rparr>"
  let ?e2 = "ex_env\<lparr>update_end := (\<lambda>index. False)\<rparr>"
  have v: "valid_from_line ex_mbox ex_inbuf" by code_simp
  obtain st1 i1 b1 where run1: "mbox_index_append_next ?e1 ex_mbox ex_index ex_inbuf = (st1, i1, b1)"
    by (cases "mbox_index_append_next ?e1 ex_mbox ex_index ex_inbuf") auto
  have a1: "append ?e1 ex_index \<noteq> None"
    and c1: "update_end ?e1 (commit_state ?e1 ex_mbox ex_index ex_inbuf)"
    and s1: "\<not> mail_index_fmsync ?e1 (sync_state ?e1 ex_mbox ex_index ex_inbuf)"
    by (simp_all add: ex_env_def)
  obtain st2 i2 b2 where run2: "mbox_index_append_next ?e2 ex_mbox ex_index ex_inbuf = (st2, i2, b2)"
    by (cases "mbox_index_append_next ?e2 ex_mbox ex_index ex_inbuf") auto
  have a2: "append ?e2 ex_index \<noteq> None"
    and c2: "\<not> update_end ?e2 (commit_state ?e2 ex_mbox ex_index ex_inbuf)"
    by (simp_all add: ex_env_def)
  obtain st3 i3 b3 where run3: "mbox_index_append_next ex_env ex_mbox ex_index ex_inbuf = (st3, i3, b3)"
    by (cases "mbox_index_append_next ex_env ex_mbox ex_index ex_inbuf") auto
  have a3: "append ex_env ex_index \<noteq> None"
    and c3: "update_end ex_env (commit_state ex_env ex_mbox ex_index ex_inbuf)"
    and s3: "mail_index_fmsync ex_env (sync_state ex_env ex_mbox ex_index ex_inbuf)"
    by (simp_all add: ex_env_def)
  from header_context_not_freed_when_sync_fails [OF run1] v a1 c1 s1
  have r1: "st1 = FALSE Fmsync_failed"
    "count_list (new_events ex_index i1) Ev_header_free_context = 0" by blast+
  from header_context_not_freed_when_sync_fails [OF run2] v a2 c2
  have r2: "st2 = FALSE Update_end_failed"
    "count_list (new_events ex_index i2) Ev_header_free_context = 1" by blast+
  from header_context_not_freed_when_sync_fails [OF run3] v a3 c3 s3
  have r3: "st3 = TRUE"
    "count_list (new_events ex_index i3) Ev_header_free_context = 1" by blast+
  from r1 r2 r3 show ?thesis unfolding run1 run2 run3 fst_conv snd_conv by simp
qed

subsection \<open>The date of the record\<close>

text \<open>
  Claim C7. For a valid From-line in which the date parser finds no date, the call does
  not take the error return of the From-line: it sets no flag and no error, and the
  message is indexed as any other. Line 115 takes every answer of the parser that is
  zero or negative for ``no date'', whatever value the parser uses to say so. The call
  then returns TRUE exactly when \<^verbatim>\<open>index->append\<close> gives a record and
  \<^verbatim>\<open>update_end\<close> and \<^verbatim>\<open>mail_index_fmsync\<close> answer true on the index they are called
  on. As soon as \<^verbatim>\<open>index->append\<close> gives a record, that record has \<^verbatim>\<open>ioloop_time\<close>
  as its internal date, and the update is opened, the location written, the headers
  parsed and the digest written, in this order. On success the index that the call
  leaves is given in full: the record with the uid, the flags of the headers and
  \<^verbatim>\<open>ioloop_time\<close>, after the twelve steps of a complete transaction.
\<close>

theorem unknown_date_is_not_an_error:
  assumes run: "mbox_index_append_next e mbox index inbuf = (st, index', inbuf')"
    and fl: "from_line_loop mbox inbuf 0 = (pos, data, b1)"
    and good: "\<not> from_line_bad pos data"
    and unk: "mbox_from_parse_date e data \<le> 0"
  shows "st \<noteq> FALSE From_line_not_found \<and>
         set_flags index' = set_flags index \<and> index_error index' = index_error index \<and>
         (st = TRUE \<longleftrightarrow>
            append e index \<noteq> None \<and> update_end e (commit_state e mbox index inbuf) \<and>
            mail_index_fmsync e (sync_state e mbox index inbuf)) \<and>
         (st = TRUE \<longleftrightarrow>
            Ev_append False \<notin> set (new_events index index') \<and>
            Ev_update_end False \<notin> set (new_events index index') \<and>
            Ev_fmsync False \<notin> set (new_events index index')) \<and>
         (append e index = None \<longrightarrow>
            st = FALSE Record_append_failed \<and> records index' = records index \<and>
            new_events index index' = [Ev_append False]) \<and>
         (append e index \<noteq> None \<longrightarrow>
            (\<exists>r. records index' = records index @ [r] \<and> internal_date r = ioloop_time e) \<and>
            take 7 (new_events index index') =
              [Ev_append True, Ev_update_begin (length (records index)),
               Ev_update_field_raw (FIELD_TYPE_LOCATION (location mbox inbuf)),
               Ev_header_init_context, Ev_update_headers, Ev_md5_final,
               Ev_update_field_raw (FIELD_TYPE_MD5 (header_digest e mbox inbuf))]) \<and>
         (\<forall>u. append e index = Some u \<and> update_end e (commit_state e mbox index inbuf) \<and>
              mail_index_fmsync e (sync_state e mbox index inbuf) \<longrightarrow>
            index' = index
              \<lparr>records := records index @
                 [\<lparr>uid = u, msg_flags = header_flags e mbox inbuf,
                   internal_date = ioloop_time e\<rparr>],
               trace := trace index @
                 [Ev_append True, Ev_update_begin (length (records index)),
                  Ev_update_field_raw (FIELD_TYPE_LOCATION (location mbox inbuf)),
                  Ev_header_init_context, Ev_update_headers, Ev_md5_final,
                  Ev_update_field_raw (FIELD_TYPE_MD5 (header_digest e mbox inbuf)),
                  Ev_update_end True,
                  Ev_mark_flag_changes (length (records index)) (header_flags e mbox inbuf),
                  Ev_fmsync True, Ev_set_uid (length (records index)) u,
                  Ev_header_free_context]\<rparr>) \<and>
         (st \<noteq> FALSE Record_append_failed \<longrightarrow>
            (\<exists>r. records index' = records index @ [r] \<and> internal_date r = ioloop_time e))"
proof -
  from fl good have v: "valid_from_line mbox inbuf" by (simp add: valid_from_line_def)
  from fl unk have d: "stored_date e mbox inbuf = ioloop_time e"
    by (simp add: stored_date_def the_date_def)
  from run v d show ?thesis
    by (cases rule: answer_cases) (auto simp: new_events_def written_def)
qed

theorem unknown_date_is_not_an_error_witness:
  "fst (mbox_index_append_next ex_env ex_mbox ex_index ex_inbuf) = TRUE \<and>
   fst (snd (mbox_index_append_next ex_env ex_mbox ex_index ex_inbuf)) =
     \<lparr>mbox_path = ''/var/mail/a'', set_flags = {}, index_error = None,
       records = [\<lparr>uid = 1, msg_flags = 5, internal_date = 1000\<rparr>],
       trace = [Ev_append True, Ev_update_begin 0, Ev_update_field_raw (FIELD_TYPE_LOCATION 7),
                Ev_header_init_context, Ev_update_headers, Ev_md5_final,
                Ev_update_field_raw (FIELD_TYPE_MD5 ''0123456789abcdef''),
                Ev_update_end True, Ev_mark_flag_changes 0 5, Ev_fmsync True, Ev_set_uid 0 1,
                Ev_header_free_context]\<rparr>"
proof -
  obtain st i' b' where
    run: "mbox_index_append_next ex_env ex_mbox ex_index ex_inbuf = (st, i', b')"
    by (cases "mbox_index_append_next ex_env ex_mbox ex_index ex_inbuf") auto
  have fl: "from_line_loop ex_mbox ex_inbuf 0 =
      (6, ''From a'' @ [LF] @ ''h'',
       \<lparr>start_offset = 0, offset = 0, io_size = 10, buffer = ''From a'' @ [LF] @ ''h'', chunk = 4\<rparr>)"
    by code_simp
  have good: "\<not> from_line_bad 6 (''From a'' @ [LF] @ ''h'')" by code_simp
  have unk: "mbox_from_parse_date ex_env (''From a'' @ [LF] @ ''h'') \<le> 0"
    by (simp add: ex_env_def)
  have a: "append ex_env ex_index = Some 1"
    and c: "update_end ex_env (commit_state ex_env ex_mbox ex_index ex_inbuf)"
    and s: "mail_index_fmsync ex_env (sync_state ex_env ex_mbox ex_index ex_inbuf)"
    by (simp_all add: ex_env_def ex_index_def)
  have loc: "location ex_mbox ex_inbuf = 7" by code_simp
  have dig: "header_digest ex_env ex_mbox ex_inbuf = ''0123456789abcdef''"
    by (simp add: header_digest_def ex_env_def)
  have flg: "header_flags ex_env ex_mbox ex_inbuf = 5"
    by (simp add: header_flags_def ex_env_def)
  have tm: "ioloop_time ex_env = 1000" by (simp add: ex_env_def)
  note t = unknown_date_is_not_an_error [OF run fl good unk]
  from t a c s have r: "st = TRUE" by simp
  from t a c s have "i' = ex_index
              \<lparr>records := records ex_index @
                 [\<lparr>uid = 1, msg_flags = header_flags ex_env ex_mbox ex_inbuf,
                   internal_date = ioloop_time ex_env\<rparr>],
               trace := trace ex_index @
                 [Ev_append True, Ev_update_begin (length (records ex_index)),
                  Ev_update_field_raw (FIELD_TYPE_LOCATION (location ex_mbox ex_inbuf)),
                  Ev_header_init_context, Ev_update_headers, Ev_md5_final,
                  Ev_update_field_raw (FIELD_TYPE_MD5 (header_digest ex_env ex_mbox ex_inbuf)),
                  Ev_update_end True,
                  Ev_mark_flag_changes (length (records ex_index)) (header_flags ex_env ex_mbox ex_inbuf),
                  Ev_fmsync True, Ev_set_uid (length (records ex_index)) 1,
                  Ev_header_free_context]\<rparr>"
    by blast
  with r show ?thesis unfolding run fst_conv snd_conv loc dig flg tm
    by (simp add: ex_index_def)
qed

text \<open>
  Claim C9. The date stored in the record is \<^verbatim>\<open>ioloop_time\<close> whenever the value that
  the date parser answers is zero or negative, whatever that value stands for, and the
  parser's value otherwise.
\<close>

theorem date_fallback_at_zero_or_below:
  assumes run: "mbox_index_append_next e mbox index inbuf = (st, index', inbuf')"
    and fl: "from_line_loop mbox inbuf 0 = (pos, data, b1)"
    and good: "\<not> from_line_bad pos data"
    and appended: "st \<noteq> FALSE Record_append_failed"
  shows "\<exists>r. records index' = records index @ [r] \<and>
             internal_date r =
               (if mbox_from_parse_date e data \<le> 0 then ioloop_time e
                else mbox_from_parse_date e data)"
  using run fl good appended
  by (cases rule: append_next_cases) (auto simp: the_date_def)

text \<open>A parser that answers 0, the epoch: the record gets the time of the clock, 1000.\<close>

theorem date_fallback_at_zero_or_below_witness:
  "internal_date (last (records (fst (snd (mbox_index_append_next
      (ex_env\<lparr>mbox_from_parse_date := (\<lambda>data. 0)\<rparr>) ex_mbox ex_index ex_inbuf))))) = 1000"
proof -
  let ?e = "ex_env\<lparr>mbox_from_parse_date := (\<lambda>data. 0)\<rparr>"
  obtain st i' b' where
    run: "mbox_index_append_next ?e ex_mbox ex_index ex_inbuf = (st, i', b')"
    by (cases "mbox_index_append_next ?e ex_mbox ex_index ex_inbuf") auto
  have fl: "from_line_loop ex_mbox ex_inbuf 0 =
      (6, ''From a'' @ [LF] @ ''h'',
       \<lparr>start_offset = 0, offset = 0, io_size = 10, buffer = ''From a'' @ [LF] @ ''h'', chunk = 4\<rparr>)"
    by code_simp
  have good: "\<not> from_line_bad 6 (''From a'' @ [LF] @ ''h'')" by code_simp
  have "fst (mbox_index_append_next ?e ex_mbox ex_index ex_inbuf) = TRUE" by code_simp
  with run have s: "st \<noteq> FALSE Record_append_failed" by simp
  from date_fallback_at_zero_or_below [OF run fl good s]
  show ?thesis unfolding run fst_conv snd_conv by (auto simp: ex_env_def)
qed

subsection \<open>The stream after the bounded parse of the headers\<close>

text \<open>
  Claim C6. A call that gets as far as the header parser (the From-line was valid and the
  record was appended) leaves the stream with the ceiling \<^verbatim>\<open>size\<close> that it had before
  the narrowing, which is the one it had on entry, and with the cursor at
  \<^verbatim>\<open>stop_offset\<close>, the place where \<^verbatim>\<open>mbox_read_message\<close> stopped. Nothing is assumed
  of the header parser: it may leave the stream it was handed in any state.
\<close>

theorem stream_restored_after_header_parse:
  assumes run: "mbox_index_append_next e mbox index inbuf = (st, index', inbuf')"
    and fl: "from_line_loop mbox inbuf 0 = (pos, data, b1)"
    and reached: "st \<noteq> FALSE From_line_not_found" "st \<noteq> FALSE Record_append_failed"
  shows "io_size inbuf' = io_size (mbox_read_message mbox (io_buffer_skip b1 (pos + 1))) \<and>
         io_size inbuf' = io_size inbuf \<and>
         offset inbuf' = offset (mbox_read_message mbox (io_buffer_skip b1 (pos + 1)))"
proof -
  let ?b3 = "mbox_read_message mbox (io_buffer_skip b1 (pos + 1))"
  have "same_stream inbuf ?b3"
    using from_line_loop_steps [OF fl] read_message_steps [of mbox "io_buffer_skip b1 (pos + 1)"]
    by (auto simp: same_stream_def io_buffer_skip_def)
  then have sz: "io_size ?b3 = io_size inbuf" by (simp add: same_stream_def)
  from append_next_stream [OF run fl] reached obtain b5 where
    "inbuf' = io_buffer_seek (b5\<lparr>io_size := io_size inbuf\<rparr>) (offset ?b3)"
    by auto
  with sz show ?thesis by (simp add: io_buffer_seek_def)
qed

text \<open>
  The header parser of \<open>ex_env\<close> leaves the stream at offset 8 with the ceiling 3; the
  call leaves it at offset 9, where the body \<open>hi\<close> ends, with the ceiling 10.
\<close>

theorem stream_restored_after_header_parse_witness:
  "io_size (snd (snd (mbox_index_append_next ex_env ex_mbox ex_index ex_inbuf))) = 10 \<and>
   offset (snd (snd (mbox_index_append_next ex_env ex_mbox ex_index ex_inbuf))) = 9"
proof -
  obtain st i' b' where
    run: "mbox_index_append_next ex_env ex_mbox ex_index ex_inbuf = (st, i', b')"
    by (cases "mbox_index_append_next ex_env ex_mbox ex_index ex_inbuf") auto
  have fl: "from_line_loop ex_mbox ex_inbuf 0 =
      (6, ''From a'' @ [LF] @ ''h'',
       \<lparr>start_offset = 0, offset = 0, io_size = 10, buffer = ''From a'' @ [LF] @ ''h'', chunk = 4\<rparr>)"
    by code_simp
  have "fst (mbox_index_append_next ex_env ex_mbox ex_index ex_inbuf) = TRUE" by code_simp
  with run have s: "st \<noteq> FALSE From_line_not_found" "st \<noteq> FALSE Record_append_failed"
    by simp_all
  have stop: "offset (mbox_read_message ex_mbox (io_buffer_skip
       \<lparr>start_offset = 0, offset = 0, io_size = 10, buffer = ''From a'' @ [LF] @ ''h'', chunk = 4\<rparr>
       (6 + 1))) = 9"
    by code_simp
  from stream_restored_after_header_parse [OF run fl s] stop
  show ?thesis unfolding run fst_conv snd_conv by (simp add: ex_inbuf_def)
qed

section \<open>Properties of the append driver\<close>

subsection \<open>The flag FSCK marks the integrity violations, and only them\<close>



end
